theory Spec2Isabelle
  imports Main "HOL-Library.Word" "HOL-Library.List_Lexorder" "HOL-Library.Multiset"
begin

text \<open>
  A shallow embedding of the core of gramtools: PRG encoding and masks, the vBWT backward
  search, per-base allele coverage, and kmer enumeration with its prefix-diff
  serialisation. The definitions come first, the lemmas and theorems after them.
\<close>

section \<open>Common types\<close>

text \<open>
  A \<open>Base\<close> is a byte-sized unsigned integer and a \<open>Pattern\<close> a vector of bases. An
  access to a \<open>std::vector\<close> outside its bounds has no defined result in the source; the
  model makes it the error value \<open>OutOfBounds\<close>. The exception \<open>std::out_of_range\<close>
  of \<open>std::vector::at\<close> is the error \<open>OutOfRange\<close>, and a failed \<open>assert\<close> is the error
  \<open>AssertionFailed\<close>.
\<close>

type_synonym Base = nat
type_synonym Pattern = "Base list"

datatype error = OutOfBounds | OutOfRange | AssertionFailed

section \<open>PRG encoding (prg.cpp)\<close>

text \<open>
  \<open>encode_char\<close> returns the pair \<open>(is_dna, character)\<close>. In its default branch the
  source computes \<open>(uint32_t) c - '0'\<close>: the \<open>char\<close> is converted to 32 bits (with sign
  extension, \<open>char\<close> being a signed byte on the platforms the program is built for) and the
  subtraction wraps around. The branch makes no test that \<open>c\<close> is a digit.
\<close>

definition char_as_uint32 :: "char \<Rightarrow> 32 word" where
  "char_as_uint32 c =
     (if (of_char c :: nat) < 128 then of_nat (of_char c) else of_nat (of_char c) - 256)"

definition encode_char :: "char \<Rightarrow> bool \<times> 32 word" where
  "encode_char c =
     (if c = CHR ''A'' \<or> c = CHR ''a'' then (True, 1)
      else if c = CHR ''C'' \<or> c = CHR ''c'' then (True, 2)
      else if c = CHR ''G'' \<or> c = CHR ''g'' then (True, 3)
      else if c = CHR ''T'' \<or> c = CHR ''t'' then (True, 4)
      else (False, char_as_uint32 c - 48))"

text \<open>
  The digits are kept in a \<open>std::vector<int>\<close>; \<open>concat_marker_digits\<close> accumulates them
  in a \<open>uint64_t\<close>, so each \<open>int\<close> is sign-extended to 64 bits before it is added.
\<close>

definition concat_marker_digits :: "32 word list \<Rightarrow> 64 word" where
  "concat_marker_digits marker_digits =
     foldl (\<lambda>marker digit. marker * 10 + scast digit) 0 marker_digits"

text \<open>
  \<open>flush_marker_digits\<close> returns the cleared digit buffer and the encoded PRG, which is
  32 bits wide: the marker is cut to its low 32 bits when it is stored.
\<close>

definition flush_marker_digits ::
  "32 word list \<Rightarrow> 32 word list \<Rightarrow> 32 word list \<times> 32 word list" where
  "flush_marker_digits marker_digits encoded_prg =
     (if marker_digits = [] then (marker_digits, encoded_prg)
      else ([], encoded_prg @ [ucast (concat_marker_digits marker_digits)]))"

fun encode_prg_loop :: "string \<Rightarrow> 32 word list \<Rightarrow> 32 word list \<Rightarrow> 32 word list" where
  "encode_prg_loop [] marker_digits encoded_prg =
     snd (flush_marker_digits marker_digits encoded_prg)"
| "encode_prg_loop (c # prg_raw) marker_digits encoded_prg =
     (let (is_dna, character) = encode_char c in
      if is_dna then
        let (digits, encoded) = flush_marker_digits marker_digits encoded_prg
        in encode_prg_loop prg_raw digits (encoded @ [character])
      else encode_prg_loop prg_raw (marker_digits @ [character]) encoded_prg)"

definition encode_prg :: "string \<Rightarrow> 32 word list" where
  "encode_prg prg_raw = encode_prg_loop prg_raw [] []"

section \<open>Site and allele masks (masks.cpp)\<close>

text \<open>
  Both builders scan the encoded PRG from left to right. The loops return the mask entry
  of each position in turn; an entry the source does not assign keeps its initial 0.
  \<open>current_allele_id\<close> is a \<open>uint32_t\<close>, so its increment wraps at \<open>2 ^ 32\<close>; the
  masks are 32 bits wide, so the site marker is stored modulo \<open>2 ^ 32\<close>.
\<close>

fun allele_mask_loop :: "nat list \<Rightarrow> nat \<Rightarrow> bool \<Rightarrow> nat list" where
  "allele_mask_loop [] current_allele_id within_variant_site = []"
| "allele_mask_loop (prg_char # prg) current_allele_id within_variant_site =
     (let at_variant_site_boundary = (prg_char > 4 \<and> prg_char mod 2 \<noteq> 0) in
      if at_variant_site_boundary \<and> \<not> within_variant_site
        then 0 # allele_mask_loop prg 1 True
      else if at_variant_site_boundary \<and> within_variant_site
        then 0 # allele_mask_loop prg current_allele_id False
      else if prg_char \<le> 4 \<and> within_variant_site
        then current_allele_id # allele_mask_loop prg current_allele_id within_variant_site
      else if prg_char > 4 \<and> prg_char mod 2 = 0
        then 0 # allele_mask_loop prg ((current_allele_id + 1) mod 2 ^ 32) within_variant_site
      else 0 # allele_mask_loop prg current_allele_id within_variant_site)"


fun sites_mask_loop :: "nat list \<Rightarrow> nat \<Rightarrow> bool \<Rightarrow> nat list" where
  "sites_mask_loop [] current_site_marker within_variant_site = []"
| "sites_mask_loop (prg_char # prg) current_site_marker within_variant_site =
     (let at_variant_site_boundary = (prg_char > 4 \<and> prg_char mod 2 \<noteq> 0) in
      if at_variant_site_boundary \<and> \<not> within_variant_site
        then 0 # sites_mask_loop prg prg_char True
      else if at_variant_site_boundary \<and> within_variant_site
        then 0 # sites_mask_loop prg current_site_marker False
      else if prg_char \<le> 4 \<and> within_variant_site
        then (current_site_marker mod 2 ^ 32)
               # sites_mask_loop prg current_site_marker within_variant_site
      else 0 # sites_mask_loop prg current_site_marker within_variant_site)"


definition generate_prg_markers_mask :: "nat list \<Rightarrow> bool list" where
  "generate_prg_markers_mask encoded_prg = map (\<lambda>x. x > 4) encoded_prg"



section \<open>Kmer enumeration and prefix diffs (kmers.cpp)\<close>

text \<open>
  The decrement loop of \<open>next_kmer\<close>: \<open>while (current_kmer[max_update_index] == 4)
  max_update_index--\<close>, with a signed 64-bit index. The loop reads the vector before
  it tests anything about the index.
\<close>

function next_kmer_scan :: "Pattern \<Rightarrow> int \<Rightarrow> error + int" where
  "next_kmer_scan current_kmer max_update_index =
     (if max_update_index < 0 \<or> int (length current_kmer) \<le> max_update_index
        then Inl OutOfBounds
      else if current_kmer ! nat max_update_index = 4
        then next_kmer_scan current_kmer (max_update_index - 1)
      else Inr max_update_index)"
  by pat_completeness auto
termination
  by (relation "measure (\<lambda>(k, i). nat (i + 1))") auto

definition next_kmer :: "Pattern \<Rightarrow> nat \<Rightarrow> error + Pattern" where
  "next_kmer current_kmer kmer_size =
     (case next_kmer_scan current_kmer (int kmer_size - 1) of
        Inl e \<Rightarrow> Inl e
      | Inr max_update_index \<Rightarrow>
          if max_update_index < 0 then Inr []
          else if length current_kmer < kmer_size then Inl OutOfBounds
          else
            let i = nat max_update_index;
                incremented = current_kmer[i := (current_kmer ! i + 1) mod 256]
            in Inr (take (Suc i) incremented @ replicate (kmer_size - Suc i) 1
                      @ drop kmer_size incremented))"

text \<open>
  \<open>ordered_vector_set<Pattern>\<close> keeps its elements sorted and without duplicates.
\<close>

definition ordered_insert :: "Pattern \<Rightarrow> Pattern list \<Rightarrow> Pattern list" where
  "ordered_insert kmer all_kmers =
     (if kmer \<in> set all_kmers then all_kmers else insort kmer all_kmers)"

text \<open>
  The \<open>while (true)\<close> loop of \<open>generate_all_kmers\<close>; \<open>None\<close> stands for a run that
  does not return.
\<close>

partial_function (option) generate_all_kmers_loop ::
  "Pattern list \<Rightarrow> Pattern \<Rightarrow> nat \<Rightarrow> (error + Pattern list) option" where
  "generate_all_kmers_loop all_kmers current_kmer kmer_size =
     (case next_kmer current_kmer kmer_size of
        Inl e \<Rightarrow> Some (Inl e)
      | Inr next \<Rightarrow>
          if next = [] then Some (Inr (ordered_insert current_kmer all_kmers))
          else generate_all_kmers_loop (ordered_insert current_kmer all_kmers) next kmer_size)"

definition generate_all_kmers :: "nat \<Rightarrow> (error + Pattern list) option" where
  "generate_all_kmers kmer_size =
     generate_all_kmers_loop [] (replicate kmer_size 1) kmer_size"

text \<open>
  The inner loop of \<open>get_prefix_diffs\<close> runs \<open>i\<close> from \<open>last_full_kmer.size() - 1\<close>
  down to 0 (the argument counts \<open>i + 1\<close>) and reads \<open>kmer[i]\<close>, which is outside
  \<open>kmer\<close> when the kmer is shorter than its predecessor.
\<close>

fun prefix_diff_scan ::
  "Pattern \<Rightarrow> Pattern \<Rightarrow> nat \<Rightarrow> bool \<Rightarrow> Pattern \<Rightarrow> error + Pattern" where
  "prefix_diff_scan kmer last_full_kmer 0 prefix_found_flag prefix_diff_list =
     Inr prefix_diff_list"
| "prefix_diff_scan kmer last_full_kmer (Suc i) prefix_found_flag prefix_diff_list =
     (if length kmer \<le> i then Inl OutOfBounds
      else
        let base = kmer ! i;
            last_full_base = last_full_kmer ! i;
            flag = (prefix_found_flag \<or> base \<noteq> last_full_base)
        in prefix_diff_scan kmer last_full_kmer i flag
             (if flag then base # prefix_diff_list else prefix_diff_list))"

fun get_prefix_diffs_loop ::
  "Pattern list \<Rightarrow> Pattern list \<Rightarrow> Pattern \<Rightarrow> error + Pattern list" where
  "get_prefix_diffs_loop [] prefix_diffs last_full_kmer = Inr prefix_diffs"
| "get_prefix_diffs_loop (kmer # kmers) prefix_diffs last_full_kmer =
     (if last_full_kmer = [] then get_prefix_diffs_loop kmers (prefix_diffs @ [kmer]) kmer
      else
        case prefix_diff_scan kmer last_full_kmer (length last_full_kmer) False [] of
          Inl e \<Rightarrow> Inl e
        | Inr prefix_diff \<Rightarrow> get_prefix_diffs_loop kmers (prefix_diffs @ [prefix_diff]) kmer)"

definition get_prefix_diffs :: "Pattern list \<Rightarrow> error + Pattern list" where
  "get_prefix_diffs kmers = get_prefix_diffs_loop kmers [] []"

text \<open>
  Two functions used to state what \<open>get_prefix_diffs\<close> computes. \<open>diff_len kmer prev n\<close>
  is the position just right of the first mismatch from the right between \<open>kmer\<close> and
  \<open>prev\<close> among their first \<open>n\<close> positions (0 when there is none), and
  \<open>expected_diffs\<close> cuts every kmer there.
\<close>

fun diff_len :: "Pattern \<Rightarrow> Pattern \<Rightarrow> nat \<Rightarrow> nat" where
  "diff_len kmer prev 0 = 0"
| "diff_len kmer prev (Suc i) =
     (if kmer ! i \<noteq> prev ! i then Suc i else diff_len kmer prev i)"

fun expected_diffs :: "Pattern \<Rightarrow> Pattern list \<Rightarrow> Pattern list" where
  "expected_diffs prev [] = []"
| "expected_diffs prev (kmer # kmers) =
     (if prev = [] then kmer else take (diff_len kmer prev (length prev)) kmer)
       # expected_diffs kmer kmers"

section \<open>Search states and the PRG context (search.cpp)\<close>

text \<open>
  \<open>SA_Index\<close>, \<open>Marker\<close> and \<open>AlleleId\<close> are unsigned integer types, and \<open>SearchState\<close>
  a struct, declared in headers that are not among the sources. Their values are
  modelled as natural numbers. Where the source subtracts on \<open>SA_Index\<close>, the
  wrap-around of the unsigned type is written out, with the number of values of
  \<open>SA_Index\<close> as the parameter \<open>M\<close> of the functions concerned; where it subtracts on a
  \<open>uint64_t\<close>, the modulus is \<open>2 ^ 64\<close>. A default-constructed \<open>SearchState\<close> has an
  empty path, the site state \<open>unknown\<close> and \<open>invalid = false\<close>.
\<close>

type_synonym SA_Index = nat
type_synonym SA_Interval = "SA_Index \<times> SA_Index"
type_synonym Marker = nat
type_synonym AlleleId = nat
type_synonym VariantLocus = "Marker \<times> AlleleId"
type_synonym VariantSitePath = "VariantLocus list"

datatype SearchVariantSiteState = within_variant_site | outside_variant_site | unknown

record SearchState =
  sa_interval :: SA_Interval
  variant_site_path :: VariantSitePath
  variant_site_state :: SearchVariantSiteState
  invalid :: bool

type_synonym SearchStates = "SearchState list"

definition new_SearchState ::
  "SA_Interval \<Rightarrow> VariantSitePath \<Rightarrow> SearchVariantSiteState \<Rightarrow> SearchState" where
  "new_SearchState interval path site_state =
     \<lparr>sa_interval = interval, variant_site_path = path,
      variant_site_state = site_state, invalid = False\<rparr>"

text \<open>
  \<open>PRG_Info\<close> holds the FM-index and the masks, which are containers of the sdsl
  library. Each is modelled by its access function: \<open>fm_index pi i\<close> is the suffix array
  entry \<open>prg_info.fm_index[i]\<close>, \<open>bwt pi i\<close> is \<open>fm_index.bwt[i]\<close>, \<open>C\<close>, \<open>char2comp\<close>,
  \<open>comp2char\<close>, \<open>sigma\<close> and \<open>fm_index_size\<close> are the members of the same names, and the
  masks are indexed by PRG position (\<open>sites_mask\<close>, \<open>allele_mask\<close>) or by suffix array
  row (\<open>bwt_markers_mask\<close>, \<open>mask_a\<close> to \<open>mask_t\<close>). The bit vector \<open>prg_markers_mask\<close>
  is kept as a list, since its select support depends on its length.
\<close>

record PRG_Info =
  fm_index :: "nat \<Rightarrow> nat"
  fm_index_size :: nat
  bwt :: "nat \<Rightarrow> nat"
  C :: "nat \<Rightarrow> nat"
  char2comp :: "nat \<Rightarrow> nat"
  comp2char :: "nat \<Rightarrow> nat"
  sigma :: nat
  sites_mask :: "nat \<Rightarrow> nat"
  allele_mask :: "nat \<Rightarrow> nat"
  prg_markers_mask :: "bool list"
  bwt_markers_mask :: "nat \<Rightarrow> bool"
  mask_a :: "nat \<Rightarrow> bool"
  mask_c :: "nat \<Rightarrow> bool"
  mask_g :: "nat \<Rightarrow> bool"
  mask_t :: "nat \<Rightarrow> bool"

text \<open>
  The rank supports of sdsl: \<open>rank1 bits i\<close> is the number of set bits of the mask \<open>bits\<close> at
  positions below \<open>i\<close>, and \<open>bwt_rank pi i c\<close> is \<open>fm_index.bwt.rank(i, c)\<close>, the number of
  occurrences of \<open>c\<close> in the BWT at rows below \<open>i\<close>.
\<close>

definition rank1 :: "(nat \<Rightarrow> bool) \<Rightarrow> nat \<Rightarrow> nat" where
  "rank1 bits i = length (filter bits [0..<i])"

definition bwt_rank :: "PRG_Info \<Rightarrow> nat \<Rightarrow> nat \<Rightarrow> nat" where
  "bwt_rank pi i c = length (filter (\<lambda>j. bwt pi j = c) [0..<i])"

definition dna_bwt_rank :: "nat \<Rightarrow> Marker \<Rightarrow> PRG_Info \<Rightarrow> nat" where
  "dna_bwt_rank upper_index dna_base pi =
     (if dna_base = 1 then rank1 (mask_a pi) upper_index
      else if dna_base = 2 then rank1 (mask_c pi) upper_index
      else if dna_base = 3 then rank1 (mask_g pi) upper_index
      else if dna_base = 4 then rank1 (mask_t pi) upper_index
      else 0)"

text \<open>Unsigned \<open>x - 1\<close> on a type of \<open>M\<close> values.\<close>

definition wrap_pred :: "nat \<Rightarrow> nat \<Rightarrow> nat" where
  "wrap_pred M x = (x + M - 1) mod M"

subsection \<open>Backward extension by one base\<close>

definition base_next_sa_interval ::
  "nat \<Rightarrow> Marker \<Rightarrow> SA_Index \<Rightarrow> SA_Interval \<Rightarrow> PRG_Info \<Rightarrow> SA_Interval" where
  "base_next_sa_interval M next_char next_char_first_sa_index current_sa_interval pi =
     (let current_sa_start = fst current_sa_interval;
          current_sa_end = snd current_sa_interval;
          sa_start_offset =
            (if current_sa_start \<le> 0 then 0
             else if next_char > 4 then bwt_rank pi current_sa_start next_char mod M
             else dna_bwt_rank current_sa_start next_char pi mod M);
          sa_end_offset =
            (if next_char > 4 then bwt_rank pi ((current_sa_end + 1) mod M) next_char mod M
             else dna_bwt_rank ((current_sa_end + 1) mod M) next_char pi mod M);
          new_start = (next_char_first_sa_index + sa_start_offset) mod M;
          new_end = wrap_pred M ((next_char_first_sa_index + sa_end_offset) mod M)
      in (new_start, new_end))"

definition search_fm_index_base_backwards ::
  "nat \<Rightarrow> Base \<Rightarrow> nat \<Rightarrow> SearchState \<Rightarrow> PRG_Info \<Rightarrow> SearchState" where
  "search_fm_index_base_backwards M pattern_char char_first_sa_index search_state pi =
     (let next_sa_interval =
            base_next_sa_interval M pattern_char (char_first_sa_index mod M)
              (sa_interval search_state) pi;
          valid_sa_interval = (wrap_pred M (fst next_sa_interval) \<noteq> snd next_sa_interval)
      in if \<not> valid_sa_interval
         then \<lparr>sa_interval = (0, 0), variant_site_path = [],
               variant_site_state = unknown, invalid = True\<rparr>
         else search_state\<lparr>sa_interval := next_sa_interval\<rparr>)"

definition search_base_backwards ::
  "nat \<Rightarrow> Base \<Rightarrow> SearchStates \<Rightarrow> PRG_Info \<Rightarrow> SearchStates" where
  "search_base_backwards M pattern_char search_states pi =
     (let char_alphabet_rank = char2comp pi pattern_char;
          char_first_sa_index = C pi char_alphabet_rank
      in filter (\<lambda>new_search_state. \<not> invalid new_search_state)
           (map (\<lambda>search_state.
                   search_fm_index_base_backwards M pattern_char char_first_sa_index
                     search_state pi)
              search_states))"

subsection \<open>Marker handling\<close>

record SiteBoundaryMarkerInfo =
  is_start_boundary :: bool
  marker_sa_interval :: SA_Interval
  marker_char :: Marker

definition site_boundary_marker_info ::
  "Marker \<Rightarrow> SA_Index \<Rightarrow> PRG_Info \<Rightarrow> SiteBoundaryMarkerInfo" where
  "site_boundary_marker_info marker sa_right_of_marker pi =
     (let alphabet_rank = char2comp pi marker;
          first_sa_index = C pi alphabet_rank;
          marker_sa_index_offset =
            (if sa_right_of_marker \<le> 0 then 0 else bwt_rank pi sa_right_of_marker marker);
          marker_sa_index = first_sa_index + marker_sa_index_offset;
          marker_text_idx = fm_index pi marker_sa_index;
          other_marker_text_idx =
            (if marker_sa_index = first_sa_index then fm_index pi (first_sa_index + 1)
             else fm_index pi first_sa_index);
          marker_is_boundary_start = (marker_text_idx \<le> other_marker_text_idx)
      in \<lparr>is_start_boundary = marker_is_boundary_start,
          marker_sa_interval = (marker_sa_index, marker_sa_index),
          marker_char = marker\<rparr>)"

definition get_allele_marker_sa_interval :: "nat \<Rightarrow> Marker \<Rightarrow> PRG_Info \<Rightarrow> SA_Interval" where
  "get_allele_marker_sa_interval M site_marker_char pi =
     (let allele_marker_char = site_marker_char + 1;
          alphabet_rank = char2comp pi allele_marker_char;
          start_sa_index = C pi alphabet_rank;
          next_boundary_marker = allele_marker_char + 1;
          max_alphabet_char = comp2char pi (wrap_pred (2 ^ 64) (sigma pi));
          next_boundary_marker_valid = (next_boundary_marker < max_alphabet_char);
          end_sa_index =
            (if next_boundary_marker_valid
             then wrap_pred (2 ^ 64) (C pi (char2comp pi next_boundary_marker)) mod M
             else wrap_pred (2 ^ 64) (fm_index_size pi) mod M)
      in (start_sa_index mod M, end_sa_index))"

text \<open>
  \<open>get_allele_id\<close> ends with \<open>assert(allele_id > 0)\<close>; a failed assertion is the error
  \<open>AssertionFailed\<close>.
\<close>

definition get_allele_id :: "SA_Index \<Rightarrow> PRG_Info \<Rightarrow> error + AlleleId" where
  "get_allele_id allele_marker_sa_index pi =
     (let internal_allele_text_index = wrap_pred (2 ^ 64) (fm_index pi allele_marker_sa_index);
          allele_id = allele_mask pi internal_allele_text_index
      in if allele_id > 0 then Inr allele_id else Inl AssertionFailed)"

fun get_allele_search_states_loop ::
  "Marker \<Rightarrow> SA_Index list \<Rightarrow> SearchState \<Rightarrow> PRG_Info \<Rightarrow> SearchStates \<Rightarrow> error + SearchStates"
  where
  "get_allele_search_states_loop site_boundary_marker [] current_search_state pi search_states =
     Inr search_states"
| "get_allele_search_states_loop site_boundary_marker (allele_marker_sa_index # rows)
     current_search_state pi search_states =
     (case get_allele_id allele_marker_sa_index pi of
        Inl e \<Rightarrow> Inl e
      | Inr allele_number \<Rightarrow>
          get_allele_search_states_loop site_boundary_marker rows current_search_state pi
            (search_states @
              [current_search_state
                 \<lparr>sa_interval := (allele_marker_sa_index, allele_marker_sa_index),
                  variant_site_state := within_variant_site,
                  variant_site_path :=
                    (site_boundary_marker, allele_number)
                      # variant_site_path current_search_state\<rparr>]))"

text \<open>
  The rows visited by \<open>for (i = first; i <= last; ++i)\<close>.
\<close>

definition sa_rows :: "SA_Interval \<Rightarrow> SA_Index list" where
  "sa_rows interval = [fst interval ..< Suc (snd interval)]"

definition get_allele_search_states ::
  "Marker \<Rightarrow> SA_Interval \<Rightarrow> SearchState \<Rightarrow> PRG_Info \<Rightarrow> error + SearchStates" where
  "get_allele_search_states site_boundary_marker allele_marker_sa_interval
     current_search_state pi =
     get_allele_search_states_loop site_boundary_marker (sa_rows allele_marker_sa_interval)
       current_search_state pi []"

definition get_site_search_state ::
  "AlleleId \<Rightarrow> SiteBoundaryMarkerInfo \<Rightarrow> SearchState \<Rightarrow> PRG_Info \<Rightarrow> SearchState" where
  "get_site_search_state final_allele_id boundary_marker_info current_search_state pi =
     current_search_state
       \<lparr>sa_interval := marker_sa_interval boundary_marker_info,
        variant_site_state := within_variant_site,
        variant_site_path :=
          (marker_char boundary_marker_info, final_allele_id)
            # variant_site_path current_search_state\<rparr>"

definition get_number_of_alleles :: "nat \<Rightarrow> SA_Interval \<Rightarrow> nat" where
  "get_number_of_alleles M allele_marker_sa_interval =
     (let num_allele_markers =
            ((snd allele_marker_sa_interval + M - fst allele_marker_sa_interval) mod M + 1) mod M;
          num_alleles = (num_allele_markers + 1) mod M
      in num_alleles)"

definition entering_site_search_states ::
  "nat \<Rightarrow> SiteBoundaryMarkerInfo \<Rightarrow> SearchState \<Rightarrow> PRG_Info \<Rightarrow> error + SearchStates" where
  "entering_site_search_states M boundary_marker_info current_search_state pi =
     (let allele_marker_sa_interval =
            get_allele_marker_sa_interval M (marker_char boundary_marker_info) pi
      in case get_allele_search_states (marker_char boundary_marker_info)
                allele_marker_sa_interval current_search_state pi of
           Inl e \<Rightarrow> Inl e
         | Inr new_search_states \<Rightarrow>
             let final_allele_id = get_number_of_alleles M allele_marker_sa_interval;
                 site_search_state =
                   get_site_search_state final_allele_id boundary_marker_info
                     current_search_state pi
             in Inr (new_search_states @ [site_search_state]))"

definition exiting_site_search_state ::
  "SiteBoundaryMarkerInfo \<Rightarrow> SearchState \<Rightarrow> PRG_Info \<Rightarrow> SearchState" where
  "exiting_site_search_state boundary_marker_info current_search_state pi =
     (let check_required = (variant_site_state current_search_state \<noteq> within_variant_site);
          started_in_site = (variant_site_path current_search_state = []);
          new_path =
            (if check_required \<and> started_in_site
             then (marker_char boundary_marker_info, 1) # variant_site_path current_search_state
             else variant_site_path current_search_state)
      in current_search_state
           \<lparr>sa_interval := marker_sa_interval boundary_marker_info,
            variant_site_state := outside_variant_site,
            variant_site_path := new_path\<rparr>)"

text \<open>
  \<open>left_markers_search\<close> returns the pairs (row, marker) of the rows of the interval
  whose BWT entry is a marker.
\<close>

definition left_markers_search :: "SearchState \<Rightarrow> PRG_Info \<Rightarrow> (SA_Index \<times> Marker) list" where
  "left_markers_search search_state pi =
     map (\<lambda>index. (index, bwt pi index))
       (filter (\<lambda>index. bwt_markers_mask pi index) (sa_rows (sa_interval search_state)))"

definition process_boundary_marker ::
  "nat \<Rightarrow> Marker \<Rightarrow> SA_Index \<Rightarrow> SearchState \<Rightarrow> PRG_Info \<Rightarrow> error + SearchStates" where
  "process_boundary_marker M marker sa_right_of_marker current_search_state pi =
     (let boundary_marker_info = site_boundary_marker_info marker sa_right_of_marker pi;
          entering_variant_site = (\<not> is_start_boundary boundary_marker_info)
      in if entering_variant_site
         then entering_site_search_states M boundary_marker_info current_search_state pi
         else Inr [exiting_site_search_state boundary_marker_info current_search_state pi])"

definition process_allele_marker ::
  "Marker \<Rightarrow> SA_Index \<Rightarrow> SearchState \<Rightarrow> PRG_Info \<Rightarrow> SearchState" where
  "process_allele_marker allele_marker_char sa_right_of_marker current_search_state pi =
     (let boundary_marker_char = allele_marker_char - 1;
          alphabet_rank = char2comp pi boundary_marker_char;
          first_sa_index = C pi alphabet_rank;
          second_sa_index = first_sa_index + 1;
          boundary_start_is_first_sa = (fm_index pi first_sa_index < fm_index pi second_sa_index);
          boundary_start_sa_index =
            (if boundary_start_is_first_sa then first_sa_index else second_sa_index);
          check_required = (variant_site_state current_search_state \<noteq> within_variant_site);
          started_in_site = (variant_site_path current_search_state = []);
          new_path =
            (if check_required \<and> started_in_site
             then (boundary_marker_char, allele_mask pi (fm_index pi sa_right_of_marker))
                    # variant_site_path current_search_state
             else variant_site_path current_search_state)
      in current_search_state
           \<lparr>sa_interval := (boundary_start_sa_index, boundary_start_sa_index),
            variant_site_state := outside_variant_site,
            variant_site_path := new_path\<rparr>)"

fun process_markers_loop ::
  "nat \<Rightarrow> (SA_Index \<times> Marker) list \<Rightarrow> SearchState \<Rightarrow> PRG_Info \<Rightarrow> SearchStates
     \<Rightarrow> error + SearchStates" where
  "process_markers_loop M [] current_search_state pi markers_search_states =
     Inr markers_search_states"
| "process_markers_loop M ((sa_right_of_marker, marker) # markers) current_search_state pi
     markers_search_states =
     (let marker_is_site_boundary = (marker mod 2 = 1) in
      if marker_is_site_boundary then
        (case process_boundary_marker M marker sa_right_of_marker current_search_state pi of
           Inl e \<Rightarrow> Inl e
         | Inr new_search_states \<Rightarrow>
             process_markers_loop M markers current_search_state pi
               (markers_search_states @ new_search_states))
      else
        process_markers_loop M markers current_search_state pi
          (markers_search_states
             @ [process_allele_marker marker sa_right_of_marker current_search_state pi]))"

definition process_markers_search_state ::
  "nat \<Rightarrow> SearchState \<Rightarrow> PRG_Info \<Rightarrow> error + SearchStates" where
  "process_markers_search_state M current_search_state pi =
     (let markers = left_markers_search current_search_state pi
      in if markers = [] then Inr []
         else process_markers_loop M markers current_search_state pi [])"

fun process_markers_search_states_loop ::
  "nat \<Rightarrow> SearchStates \<Rightarrow> PRG_Info \<Rightarrow> SearchStates \<Rightarrow> error + SearchStates" where
  "process_markers_search_states_loop M [] pi all_markers_new_search_states =
     Inr all_markers_new_search_states"
| "process_markers_search_states_loop M (search_state # rest) pi all_markers_new_search_states =
     (case process_markers_search_state M search_state pi of
        Inl e \<Rightarrow> Inl e
      | Inr markers_search_states \<Rightarrow>
          process_markers_search_states_loop M rest pi
            (all_markers_new_search_states @ markers_search_states))"

definition process_markers_search_states ::
  "nat \<Rightarrow> SearchStates \<Rightarrow> PRG_Info \<Rightarrow> error + SearchStates" where
  "process_markers_search_states M old_search_states pi =
     (case process_markers_search_states_loop M old_search_states pi [] of
        Inl e \<Rightarrow> Inl e
      | Inr all_markers_new_search_states \<Rightarrow>
          Inr (old_search_states @ all_markers_new_search_states))"

definition process_read_char_search_states ::
  "nat \<Rightarrow> Base \<Rightarrow> SearchStates \<Rightarrow> PRG_Info \<Rightarrow> error + SearchStates" where
  "process_read_char_search_states M pattern_char old_search_states pi =
     (case process_markers_search_states M old_search_states pi of
        Inl e \<Rightarrow> Inl e
      | Inr post_markers_search_states \<Rightarrow>
          Inr (search_base_backwards M pattern_char post_markers_search_states pi))"

subsection \<open>Allele-encapsulated states\<close>

text \<open>
  \<open>SearchStateCache\<close> holds at most one search state. Its \<open>update_sa_interval_max\<close>
  asserts that the cache is not empty and that the new maximum is the old one plus 1.
\<close>

record SearchStateCache =
  cache_search_state :: SearchState
  cache_empty :: bool

definition cache_init :: SearchStateCache where
  "cache_init =
     \<lparr>cache_search_state = \<lparr>sa_interval = (0, 0), variant_site_path = [],
                             variant_site_state = unknown, invalid = False\<rparr>,
      cache_empty = True\<rparr>"

definition cache_set :: "SearchStateCache \<Rightarrow> SearchState \<Rightarrow> SearchStateCache" where
  "cache_set cache search_state = cache\<lparr>cache_search_state := search_state, cache_empty := False\<rparr>"

definition cache_flush :: "SearchStateCache \<Rightarrow> SearchStates \<Rightarrow> SearchStateCache \<times> SearchStates" where
  "cache_flush cache search_states =
     (if cache_empty cache then (cache, search_states)
      else (cache\<lparr>cache_empty := True\<rparr>, search_states @ [cache_search_state cache]))"

definition cache_update_sa_interval_max ::
  "SearchStateCache \<Rightarrow> SA_Index \<Rightarrow> error + SearchStateCache" where
  "cache_update_sa_interval_max cache new_sa_interval_max =
     (if cache_empty cache then Inl AssertionFailed
      else if snd (sa_interval (cache_search_state cache)) + 1 \<noteq> new_sa_interval_max
        then Inl AssertionFailed
      else Inr (cache\<lparr>cache_search_state :=
                  (cache_search_state cache)
                    \<lparr>sa_interval :=
                       (fst (sa_interval (cache_search_state cache)), new_sa_interval_max)\<rparr>\<rparr>))"

fun handle_allele_encapsulated_state_loop ::
  "SA_Index list \<Rightarrow> PRG_Info \<Rightarrow> SearchStates \<Rightarrow> SearchStateCache \<Rightarrow> error + SearchStates" where
  "handle_allele_encapsulated_state_loop [] pi new_search_states cache =
     Inr (snd (cache_flush cache new_search_states))"
| "handle_allele_encapsulated_state_loop (sa_index # rows) pi new_search_states cache =
     (let prg_index = fm_index pi sa_index;
          site_marker = sites_mask pi prg_index;
          allele_id = allele_mask pi prg_index;
          within_site = (site_marker \<noteq> 0)
      in if \<not> within_site then
           (let (cache1, states1) = cache_flush cache new_search_states;
                cache2 = cache_set cache1
                           (new_SearchState (sa_index, sa_index) [] outside_variant_site);
                (cache3, states3) = cache_flush cache2 states1
            in handle_allele_encapsulated_state_loop rows pi states3 cache3)
         else if cache_empty cache then
           handle_allele_encapsulated_state_loop rows pi new_search_states
             (cache_set cache
                (new_SearchState (sa_index, sa_index) [(site_marker, allele_id)]
                   within_variant_site))
         else
           (let current_path = [(site_marker, allele_id)];
                cache_has_same_path =
                  (current_path = variant_site_path (cache_search_state cache))
            in if cache_has_same_path then
                 (case cache_update_sa_interval_max cache sa_index of
                    Inl e \<Rightarrow> Inl e
                  | Inr cache1 \<Rightarrow>
                      handle_allele_encapsulated_state_loop rows pi new_search_states cache1)
               else
                 (let (cache1, states1) = cache_flush cache new_search_states
                  in handle_allele_encapsulated_state_loop rows pi states1
                       (cache_set cache1
                          (new_SearchState (sa_index, sa_index) current_path
                             within_variant_site)))))"

definition handle_allele_encapsulated_state ::
  "SearchState \<Rightarrow> PRG_Info \<Rightarrow> error + SearchStates" where
  "handle_allele_encapsulated_state search_state pi =
     (let has_path = (variant_site_path search_state \<noteq> [])
      in if has_path then Inl AssertionFailed
         else handle_allele_encapsulated_state_loop (sa_rows (sa_interval search_state)) pi []
                cache_init)"

fun handle_allele_encapsulated_states_loop ::
  "SearchStates \<Rightarrow> PRG_Info \<Rightarrow> SearchStates \<Rightarrow> error + SearchStates" where
  "handle_allele_encapsulated_states_loop [] pi new_search_states = Inr new_search_states"
| "handle_allele_encapsulated_states_loop (search_state # rest) pi new_search_states =
     (let has_path = (variant_site_path search_state \<noteq> [])
      in if has_path
         then handle_allele_encapsulated_states_loop rest pi (new_search_states @ [search_state])
         else
           (case handle_allele_encapsulated_state search_state pi of
              Inl e \<Rightarrow> Inl e
            | Inr split_search_states \<Rightarrow>
                handle_allele_encapsulated_states_loop rest pi
                  (new_search_states @ split_search_states)))"

definition handle_allele_encapsulated_states ::
  "SearchStates \<Rightarrow> PRG_Info \<Rightarrow> error + SearchStates" where
  "handle_allele_encapsulated_states search_states pi =
     handle_allele_encapsulated_states_loop search_states pi []"

subsection \<open>Runs of rows with one locus\<close>

text \<open>
  The following three functions state what the splitting of an allele-encapsulated
  state computes. \<open>locus_at pi i\<close> is the locus of row \<open>i\<close>: the pair of the sites mask
  and the allele mask at the PRG position \<open>SA[i]\<close>, or \<open>None\<close> when that position lies
  outside every site. \<open>locus_runs key rows\<close> cuts a list of rows into the maximal runs
  of consecutive rows with the same locus; a row without a locus is a run of its own.
  \<open>run_state\<close> is the search state of a run: its interval goes from the first to the
  last row of the run, and its path is the locus of the run, if any.
\<close>

definition locus_at :: "PRG_Info \<Rightarrow> SA_Index \<Rightarrow> VariantLocus option" where
  "locus_at pi i =
     (if sites_mask pi (fm_index pi i) = 0 then None
      else Some (sites_mask pi (fm_index pi i), allele_mask pi (fm_index pi i)))"

function locus_runs :: "(nat \<Rightarrow> 'k option) \<Rightarrow> nat list \<Rightarrow> nat list list" where
  "locus_runs key [] = []"
| "locus_runs key (i # rows) =
     (case key i of
        None \<Rightarrow> [i] # locus_runs key rows
      | Some k \<Rightarrow>
          (i # takeWhile (\<lambda>j. key j = Some k) rows)
            # locus_runs key (dropWhile (\<lambda>j. key j = Some k) rows))"
  by pat_completeness auto
termination
  by (relation "measure (\<lambda>(key, rows). length rows)")
    (auto simp: length_dropWhile_le less_Suc_eq_le)

definition run_state :: "PRG_Info \<Rightarrow> nat list \<Rightarrow> SearchState" where
  "run_state pi run =
     (case locus_at pi (hd run) of
        None \<Rightarrow> new_SearchState (hd run, last run) [] outside_variant_site
      | Some locus \<Rightarrow> new_SearchState (hd run, last run) [locus] within_variant_site)"

subsection \<open>An example PRG\<close>

text \<open>
  The PRG \<open>g5aacaaa6c5t\<close>: one site, marker 5, with the alleles \<open>aacaaa\<close> and \<open>c\<close>.
  Its suffix array (of the text followed by the terminator 0), its BWT and the tables
  of its FM-index are written out; the masks are those of the mask builders.
\<close>

definition lookup :: "nat list \<Rightarrow> nat \<Rightarrow> nat" where
  "lookup xs i = (if i < length xs then xs ! i else 0)"

definition example_prg :: "nat list" where
  "example_prg = [3, 5, 1, 1, 2, 1, 1, 1, 6, 2, 5, 4]"

definition example_bwt :: "nat list" where
  "example_bwt = [4, 2, 5, 1, 1, 1, 1, 6, 0, 5, 3, 2, 1]"

definition example_prg_info :: PRG_Info where
  "example_prg_info =
     \<lparr>fm_index = lookup [12, 5, 2, 6, 3, 7, 4, 9, 0, 11, 1, 10, 8],
      fm_index_size = 13,
      bwt = lookup example_bwt,
      C = lookup [0, 1, 6, 8, 9, 10, 12, 13],
      char2comp = lookup [0, 1, 2, 3, 4, 5, 6],
      comp2char = lookup [0, 1, 2, 3, 4, 5, 6],
      sigma = 7,
      sites_mask = lookup [0, 0, 5, 5, 5, 5, 5, 5, 0, 5, 0, 0],
      allele_mask = lookup [0, 0, 1, 1, 1, 1, 1, 1, 0, 2, 0, 0],
      prg_markers_mask = generate_prg_markers_mask example_prg,
      bwt_markers_mask = (\<lambda>i. lookup example_bwt i > 4),
      mask_a = (\<lambda>i. i < 13 \<and> lookup example_bwt i = 1),
      mask_c = (\<lambda>i. i < 13 \<and> lookup example_bwt i = 2),
      mask_g = (\<lambda>i. i < 13 \<and> lookup example_bwt i = 3),
      mask_t = (\<lambda>i. i < 13 \<and> lookup example_bwt i = 4)\<rparr>"

definition example_state :: "SA_Interval \<Rightarrow> SearchState" where
  "example_state interval = new_SearchState interval [] outside_variant_site"


section \<open>Coverage recording (allele\_base.cpp)\<close>

text \<open>
  The base coverage of an allele is a vector of \<open>uint16_t\<close> counters; a site holds one
  such vector per allele. \<open>SitesCoverageBoundaries\<close> maps a locus to the end offset of
  its last recording within the current read. The walk over a read computes in
  \<open>uint64_t\<close>: \<open>u64_add\<close> and \<open>u64_sub\<close> are the operations of 64-bit words. The marker
  and the allele id of a locus are 32-bit values, as the masks they are read from, and
  \<open>u32_sub\<close> is the subtraction of 32-bit words.
\<close>

type_synonym BaseCoverage = "16 word list"
type_synonym AlleleCoverage = "BaseCoverage list"
type_synonym SitesAlleleBaseCoverage = "AlleleCoverage list"
type_synonym SitesCoverageBoundaries = "VariantLocus \<rightharpoonup> nat"

text \<open>
  Of the three coverage structures only the base coverage is recorded by code among
  the sources. The other two are kept as counters indexed by (site index, allele
  index) and by (site index, set of allele ids).
\<close>

record Coverage =
  allele_sum_coverage :: "nat \<times> nat \<Rightarrow> nat"
  allele_base_coverage :: SitesAlleleBaseCoverage
  grouped_allele_counts :: "nat \<times> nat set \<Rightarrow> nat"

definition u64_add :: "nat \<Rightarrow> nat \<Rightarrow> nat" where
  "u64_add a b = unat ((of_nat a :: 64 word) + of_nat b)"

definition u64_sub :: "nat \<Rightarrow> nat \<Rightarrow> nat" where
  "u64_sub a b = unat ((of_nat a :: 64 word) - of_nat b)"

definition u32_sub :: "nat \<Rightarrow> nat \<Rightarrow> nat" where
  "u32_sub a b = unat ((of_nat a :: 32 word) - of_nat b)"

text \<open>
  \<open>rank_list bits i\<close> is \<open>prg_markers_rank(i)\<close> and \<open>select_list bits k\<close> is
  \<open>prg_markers_select(k)\<close>, the position of the \<open>k\<close>-th set bit, counted from 1; sdsl
  defines no result when there is no such bit.
\<close>

definition rank_list :: "bool list \<Rightarrow> nat \<Rightarrow> nat" where
  "rank_list bits i = length (filter (\<lambda>b. b) (take i bits))"

definition select_list :: "bool list \<Rightarrow> nat \<Rightarrow> error + nat" where
  "select_list bits k =
     (let positions = filter (\<lambda>j. bits ! j) [0..<length bits]
      in if 0 < k \<and> k \<le> length positions then Inr (positions ! (k - 1))
         else Inl OutOfBounds)"

definition allele_start_offset_index :: "nat \<Rightarrow> PRG_Info \<Rightarrow> error + nat" where
  "allele_start_offset_index within_allele_prg_index pi =
     (let number_markers_before = rank_list (prg_markers_mask pi) within_allele_prg_index
      in case select_list (prg_markers_mask pi) number_markers_before of
           Inl e \<Rightarrow> Inl e
         | Inr marker_index \<Rightarrow>
             Inr (u64_sub (u64_sub within_allele_prg_index marker_index) 1))"

text \<open>
  The loop \<open>for (i = index_start_boundary; i < index_end_boundary; ++i)\<close>, which skips a
  counter that has reached \<open>UINT16_MAX\<close>.
\<close>

definition increment_base :: "16 word \<Rightarrow> 16 word" where
  "increment_base x = (if x = 65535 then x else x + 1)"

fun increment_bases :: "nat list \<Rightarrow> BaseCoverage \<Rightarrow> BaseCoverage" where
  "increment_bases [] allele_coverage = allele_coverage"
| "increment_bases (i # rest) allele_coverage =
     increment_bases rest (allele_coverage[i := increment_base (allele_coverage ! i)])"

definition set_site_base_coverage ::
  "Coverage \<Rightarrow> SitesCoverageBoundaries \<Rightarrow> VariantLocus \<Rightarrow> nat \<Rightarrow> nat
     \<Rightarrow> error + (Coverage \<times> SitesCoverageBoundaries \<times> nat)" where
  "set_site_base_coverage coverage sites_coverage_boundaries path_element
     allele_coverage_offset max_bases_to_set =
     (let marker = fst path_element;
          variant_site_coverage_index = u32_sub marker 5 div 2
      in if length (allele_base_coverage coverage) \<le> variant_site_coverage_index
         then Inl OutOfRange
         else
           let site_coverage = allele_base_coverage coverage ! variant_site_coverage_index;
               allele_id = snd path_element;
               allele_coverage_index = u32_sub allele_id 1
           in if length site_coverage \<le> allele_coverage_index then Inl OutOfRange
              else
                let allele_coverage = site_coverage ! allele_coverage_index;
                    index_end_boundary =
                      min (u64_add allele_coverage_offset max_bases_to_set)
                        (length allele_coverage)
                in if index_end_boundary < allele_coverage_offset then Inl AssertionFailed
                   else
                     let count_bases_consumed = index_end_boundary - allele_coverage_offset;
                         index_start_boundary =
                           (case sites_coverage_boundaries path_element of
                              None \<Rightarrow> allele_coverage_offset
                            | Some previous_end \<Rightarrow> max allele_coverage_offset previous_end);
                         boundaries =
                           sites_coverage_boundaries(path_element \<mapsto> index_end_boundary);
                         new_allele_coverage =
                           increment_bases [index_start_boundary..<index_end_boundary]
                             allele_coverage
                     in Inr (coverage
                               \<lparr>allele_base_coverage :=
                                  (allele_base_coverage coverage)
                                    [variant_site_coverage_index :=
                                       site_coverage
                                         [allele_coverage_index := new_allele_coverage]]\<rparr>,
                             boundaries, count_bases_consumed))"

definition site_marker_prg_indexes :: "nat \<Rightarrow> PRG_Info \<Rightarrow> nat \<times> nat" where
  "site_marker_prg_indexes site_marker pi =
     (let alphabet_rank = char2comp pi site_marker;
          first_sa_index = C pi alphabet_rank;
          second_sa_index = first_sa_index + 1;
          first_prg_index = fm_index pi first_sa_index;
          second_prg_index = fm_index pi second_sa_index
      in if first_prg_index < second_prg_index then (first_prg_index, second_prg_index)
         else (second_prg_index, first_prg_index))"

text \<open>
  The \<open>while\<close> loop of \<open>sa_index_allele_base_coverage\<close>, over the part of the path that
  \<open>path_it\<close> has not passed yet.
\<close>

fun base_coverage_walk ::
  "Coverage \<Rightarrow> SitesCoverageBoundaries \<Rightarrow> nat \<Rightarrow> nat \<times> nat \<Rightarrow> nat \<times> nat
     \<Rightarrow> VariantSitePath \<Rightarrow> nat \<Rightarrow> PRG_Info \<Rightarrow> error + (Coverage \<times> SitesCoverageBoundaries)"
  where
  "base_coverage_walk coverage boundaries read_bases_consumed last_site_prg_start_end
     site_prg_start_end [] read_length pi = Inr (coverage, boundaries)"
| "base_coverage_walk coverage boundaries read_bases_consumed last_site_prg_start_end
     site_prg_start_end (path_element # path_rest) read_length pi =
     (if \<not> read_bases_consumed < read_length then Inr (coverage, boundaries)
      else
        let site_marker = fst path_element;
            site_prg_start_end1 =
              (if fst last_site_prg_start_end \<noteq> 0 then site_marker_prg_indexes site_marker pi
               else site_prg_start_end);
            read_bases_consumed1 =
              (if fst last_site_prg_start_end \<noteq> 0
               then u64_add read_bases_consumed
                      (u64_sub (u64_sub (fst site_prg_start_end1) (snd last_site_prg_start_end)) 1)
               else read_bases_consumed);
            max_bases_to_set = u64_sub read_length read_bases_consumed1
        in case set_site_base_coverage coverage boundaries path_element 0 max_bases_to_set of
             Inl e \<Rightarrow> Inl e
           | Inr (coverage1, boundaries1, consumed) \<Rightarrow>
               base_coverage_walk coverage1 boundaries1 (u64_add read_bases_consumed1 consumed)
                 site_prg_start_end1 site_prg_start_end1 path_rest read_length pi)"

text \<open>
  \<open>sa_index_allele_base_coverage\<close> dereferences the first element of the path; its
  caller passes only states with a non-empty path.
\<close>

definition sa_index_allele_base_coverage ::
  "Coverage \<Rightarrow> SitesCoverageBoundaries \<Rightarrow> nat \<Rightarrow> nat \<Rightarrow> SearchState \<Rightarrow> PRG_Info
     \<Rightarrow> error + (Coverage \<times> SitesCoverageBoundaries)" where
  "sa_index_allele_base_coverage coverage boundaries sa_index read_length search_state pi =
     (case variant_site_path search_state of
        [] \<Rightarrow> Inl OutOfBounds
      | path_element # path_rest \<Rightarrow>
          let read_start_index = fm_index pi sa_index;
              start_site_marker = sites_mask pi read_start_index;
              read_starts_within_site = (start_site_marker \<noteq> 0);
              site_marker = fst path_element
          in if read_starts_within_site then
               (let last_site_prg_start_end = site_marker_prg_indexes site_marker pi
                in case allele_start_offset_index read_start_index pi of
                     Inl e \<Rightarrow> Inl e
                   | Inr allele_coverage_offset \<Rightarrow>
                       (case set_site_base_coverage coverage boundaries path_element
                               allele_coverage_offset (u64_sub read_length 0) of
                          Inl e \<Rightarrow> Inl e
                        | Inr (coverage1, boundaries1, consumed) \<Rightarrow>
                            base_coverage_walk coverage1 boundaries1 (u64_add 0 consumed)
                              last_site_prg_start_end (0, 0) path_rest read_length pi))
             else
               (let site_prg_start_end = site_marker_prg_indexes site_marker pi;
                    read_bases_consumed =
                      u64_add 0 (u64_sub (fst site_prg_start_end) read_start_index)
                in base_coverage_walk coverage boundaries read_bases_consumed (0, 0)
                     site_prg_start_end (path_element # path_rest) read_length pi))"

fun allele_base_rows ::
  "Coverage \<Rightarrow> SitesCoverageBoundaries \<Rightarrow> nat list \<Rightarrow> nat \<Rightarrow> SearchState \<Rightarrow> PRG_Info
     \<Rightarrow> error + (Coverage \<times> SitesCoverageBoundaries)" where
  "allele_base_rows coverage boundaries [] read_length search_state pi =
     Inr (coverage, boundaries)"
| "allele_base_rows coverage boundaries (sa_index # rows) read_length search_state pi =
     (case sa_index_allele_base_coverage coverage boundaries sa_index read_length
             search_state pi of
        Inl e \<Rightarrow> Inl e
      | Inr (coverage1, boundaries1) \<Rightarrow>
          allele_base_rows coverage1 boundaries1 rows read_length search_state pi)"

fun allele_base_states ::
  "Coverage \<Rightarrow> SitesCoverageBoundaries \<Rightarrow> SearchStates \<Rightarrow> nat \<Rightarrow> PRG_Info
     \<Rightarrow> error + (Coverage \<times> SitesCoverageBoundaries)" where
  "allele_base_states coverage boundaries [] read_length pi = Inr (coverage, boundaries)"
| "allele_base_states coverage boundaries (search_state # rest) read_length pi =
     (if variant_site_path search_state = []
      then allele_base_states coverage boundaries rest read_length pi
      else
        case allele_base_rows coverage boundaries (sa_rows (sa_interval search_state))
               read_length search_state pi of
          Inl e \<Rightarrow> Inl e
        | Inr (coverage1, boundaries1) \<Rightarrow>
            allele_base_states coverage1 boundaries1 rest read_length pi)"

text \<open>\<open>coverage::record::allele_base\<close>: the boundaries start empty for every read.\<close>

definition allele_base :: "Coverage \<Rightarrow> SearchStates \<Rightarrow> nat \<Rightarrow> PRG_Info \<Rightarrow> error + Coverage" where
  "allele_base coverage search_states read_length pi =
     (case allele_base_states coverage Map.empty search_states read_length pi of
        Inl e \<Rightarrow> Inl e
      | Inr (coverage1, boundaries) \<Rightarrow> Inr coverage1)"

subsection \<open>The two recorders that are not among the sources\<close>

text \<open>
  Modelled from the spec: the allele sum recorder \<open>coverage::record::allele_sum\<close> is
  missing from the sources. The spec says: for each state whose path is non-empty,
  increment \<open>counts[site_idx][allele_idx]\<close> by 1 for every locus on the path. The site
  index of marker \<open>m\<close> is \<open>(m - 5) / 2\<close> and the allele index of allele id \<open>a\<close> is
  \<open>a - 1\<close>, as in the base recorder.
\<close>

definition locus_index :: "VariantLocus \<Rightarrow> nat \<times> nat" where
  "locus_index locus = (u32_sub (fst locus) 5 div 2, u32_sub (snd locus) 1)"

definition record_allele_sum :: "Coverage \<Rightarrow> SearchStates \<Rightarrow> Coverage" where
  "record_allele_sum coverage search_states =
     coverage\<lparr>allele_sum_coverage :=
       fold (\<lambda>locus counts. counts(locus_index locus := counts (locus_index locus) + 1))
         (concat (map variant_site_path search_states)) (allele_sum_coverage coverage)\<rparr>"

text \<open>
  Modelled from the spec: the grouped allele counts recorder
  \<open>coverage::record::grouped_allele_counts\<close> is missing from the sources (its tests are
  present). The spec says: for each site independently, collect the set of allele ids
  that the read's search states passed through, and increment \<open>group[site][set]\<close> by 1.
  The allele ids of a group are 0-based, as in the tests.
\<close>

definition site_allele_group :: "SearchStates \<Rightarrow> nat \<Rightarrow> nat set" where
  "site_allele_group search_states site_index =
     snd ` locus_index `
       {locus \<in> set (concat (map variant_site_path search_states)).
          fst (locus_index locus) = site_index}"

definition record_grouped_allele_counts :: "Coverage \<Rightarrow> SearchStates \<Rightarrow> Coverage" where
  "record_grouped_allele_counts coverage search_states =
     coverage\<lparr>grouped_allele_counts :=
       fold (\<lambda>site_index groups.
               groups((site_index, site_allele_group search_states site_index) :=
                 groups (site_index, site_allele_group search_states site_index) + 1))
         (remdups (map (\<lambda>locus. fst (locus_index locus))
                     (concat (map variant_site_path search_states))))
         (grouped_allele_counts coverage)\<rparr>"

text \<open>
  Modelled from the spec: the driver that records one read is missing from the
  sources. The spec says that three recorders consume the final search states of each
  read. A read is given by its final search states and its length.
\<close>

definition record_read ::
  "PRG_Info \<Rightarrow> Coverage \<Rightarrow> SearchStates \<times> nat \<Rightarrow> error + Coverage" where
  "record_read pi coverage read =
     allele_base
       (record_grouped_allele_counts (record_allele_sum coverage (fst read)) (fst read))
       (fst read) (snd read) pi"

fun record_reads :: "PRG_Info \<Rightarrow> Coverage \<Rightarrow> (SearchStates \<times> nat) list \<Rightarrow> error + Coverage"
  where
  "record_reads pi coverage [] = Inr coverage"
| "record_reads pi coverage (read # reads) =
     (case record_read pi coverage read of
        Inl e \<Rightarrow> Inl e
      | Inr coverage1 \<Rightarrow> record_reads pi coverage1 reads)"

text \<open>
  The final coverage of a run: \<open>None\<close> when the run ended in an error, whichever it was.
\<close>

definition final_coverage :: "error + Coverage \<Rightarrow> Coverage option" where
  "final_coverage result = (case result of Inl e \<Rightarrow> None | Inr coverage \<Rightarrow> Some coverage)"

subsection \<open>Notions used to prove the properties of the recorders\<close>

text \<open>
  \<open>base_shape\<close> gives the sizes of the base coverage. \<open>bump_list\<close> increments one
  counter of a base coverage, with saturation, and \<open>with_bumps\<close> increments a list of
  counters of a coverage. \<open>uniform f\<close> says that, on all coverages of one shape, \<open>f\<close>
  either fails with one error, or increments one list of counters and returns one
  value. \<open>record_step\<close> records a read on the final coverage of the reads before it.
\<close>

definition base_shape :: "Coverage \<Rightarrow> nat list list" where
  "base_shape coverage = map (map length) (allele_base_coverage coverage)"

definition bump_list :: "nat \<times> nat \<times> nat \<Rightarrow> SitesAlleleBaseCoverage \<Rightarrow> SitesAlleleBaseCoverage"
  where
  "bump_list position sites =
     (case position of (s, a, i) \<Rightarrow>
        if s < length sites \<and> a < length (sites ! s) \<and> i < length (sites ! s ! a)
        then sites[s := (sites ! s)[a := (sites ! s ! a)[i := increment_base (sites ! s ! a ! i)]]]
        else sites)"

definition with_bumps :: "(nat \<times> nat \<times> nat) list \<Rightarrow> Coverage \<Rightarrow> Coverage" where
  "with_bumps positions coverage =
     coverage\<lparr>allele_base_coverage := fold bump_list positions (allele_base_coverage coverage)\<rparr>"

definition uniform :: "(Coverage \<Rightarrow> error + Coverage \<times> 'a) \<Rightarrow> bool" where
  "uniform f =
     (\<forall>shape.
        (\<exists>e. \<forall>coverage. base_shape coverage = shape \<longrightarrow> f coverage = Inl e) \<or>
        (\<exists>positions x. \<forall>coverage. base_shape coverage = shape \<longrightarrow>
           f coverage = Inr (with_bumps positions coverage, x)))"

definition record_step ::
  "PRG_Info \<Rightarrow> SearchStates \<times> nat \<Rightarrow> Coverage option \<Rightarrow> Coverage option" where
  "record_step pi read state =
     (case state of
        None \<Rightarrow> None
      | Some coverage \<Rightarrow> final_coverage (record_read pi coverage read))"

subsection \<open>Coverage on the example PRG\<close>

text \<open>
  The empty coverage of the example PRG: one site with alleles of 6 and 1 bases. The
  read \<open>aa\<close> maps to the rows 1 to 3, all within allele 1 of site 5.
\<close>

definition example_coverage :: Coverage where
  "example_coverage =
     \<lparr>allele_sum_coverage = (\<lambda>k. 0),
      allele_base_coverage = [[[0, 0, 0, 0, 0, 0], [0]]],
      grouped_allele_counts = (\<lambda>k. 0)\<rparr>"

definition example_read_aa :: "SearchStates \<times> nat" where
  "example_read_aa = ([new_SearchState (1, 3) [(5, 1)] within_variant_site], 2)"

definition example_read_c :: "SearchStates \<times> nat" where
  "example_read_c = ([new_SearchState (7, 7) [(5, 2)] within_variant_site], 1)"

section \<open>Properties of the prefix diffs\<close>

lemma diff_len_le: "diff_len kmer prev n \<le> n"
  by (induction n) auto

lemma diff_len_agree: "diff_len kmer prev n \<le> j \<Longrightarrow> j < n \<Longrightarrow> kmer ! j = prev ! j"
proof (induction n)
  case 0
  then show ?case by simp
next
  case (Suc n)
  then show ?case by (cases "j = n") (auto split: if_splits)
qed

lemma diff_len_mismatch:
  "0 < diff_len kmer prev n \<Longrightarrow>
   kmer ! (diff_len kmer prev n - 1) \<noteq> prev ! (diff_len kmer prev n - 1)"
  by (induction n) (auto split: if_splits)

lemma prefix_diff_scan_flag:
  "n \<le> length kmer \<Longrightarrow> prefix_diff_scan kmer prev n True acc = Inr (take n kmer @ acc)"
  by (induction n arbitrary: acc) (auto simp: take_Suc_conv_app_nth)

lemma prefix_diff_scan_noflag:
  "n \<le> length kmer \<Longrightarrow>
   prefix_diff_scan kmer prev n False acc = Inr (take (diff_len kmer prev n) kmer @ acc)"
proof (induction n arbitrary: acc)
  case 0
  then show ?case by simp
next
  case (Suc n)
  then show ?case
    by (auto simp: prefix_diff_scan_flag take_Suc_conv_app_nth)
qed

lemma diff_len_rebuild:
  assumes "length kmer = length prev"
  shows "kmer = take (diff_len kmer prev (length prev)) kmer
                  @ drop (diff_len kmer prev (length prev)) prev"
proof (rule nth_equalityI)
  show "length kmer = length (take (diff_len kmer prev (length prev)) kmer
                                @ drop (diff_len kmer prev (length prev)) prev)"
    using assms diff_len_le [of kmer prev "length prev"] by simp
next
  fix i assume "i < length kmer"
  then show "kmer ! i = (take (diff_len kmer prev (length prev)) kmer
                           @ drop (diff_len kmer prev (length prev)) prev) ! i"
    using assms diff_len_le [of kmer prev "length prev"]
      diff_len_agree [of kmer prev "length prev" i]
    by (auto simp: nth_append)
qed

lemma get_prefix_diffs_loop_eq:
  "\<forall>k \<in> set kmers. length k = n \<Longrightarrow> prev = [] \<or> length prev = n \<Longrightarrow>
   get_prefix_diffs_loop kmers diffs prev = Inr (diffs @ expected_diffs prev kmers)"
proof (induction kmers arbitrary: diffs prev)
  case Nil
  then show ?case by simp
next
  case (Cons kmer kmers)
  then show ?case
    by (auto simp: prefix_diff_scan_noflag)
qed

lemma length_expected_diffs: "length (expected_diffs prev kmers) = length kmers"
  by (induction kmers arbitrary: prev) auto

lemma expected_diffs_nth:
  "i < length kmers \<Longrightarrow>
   expected_diffs prev kmers ! i =
     (let p = (if i = 0 then prev else kmers ! (i - 1)); k = kmers ! i
      in if p = [] then k else take (diff_len k p (length p)) k)"
proof (induction kmers arbitrary: prev i)
  case Nil
  then show ?case by simp
next
  case (Cons kmer kmers)
  then show ?case
    by (cases i) (auto simp: Let_def nth_Cons')
qed

text \<open>
  C10. For a list of kmers of one length \<open>n\<close>, \<open>get_prefix_diffs\<close> returns one diff per
  kmer. The first diff is the first kmer in full. For every later kmer there is a cut
  position \<open>d\<close> such that the diff is the first \<open>d\<close> bases of the kmer, the kmer agrees
  with its predecessor at every position from \<open>d\<close> on, position \<open>d - 1\<close> is a mismatch
  (when \<open>d > 0\<close>): the diff is the part of the kmer up to and including the first
  mismatch from the right. The kmer is rebuilt as its diff followed by the predecessor
  from position \<open>d\<close> on.
\<close>

theorem get_prefix_diffs_round_trip:
  assumes "\<forall>k \<in> set kmers. length k = n"
  shows "\<exists>diffs. get_prefix_diffs kmers = Inr diffs \<and> length diffs = length kmers \<and>
           (kmers \<noteq> [] \<longrightarrow> diffs ! 0 = kmers ! 0) \<and>
           (\<forall>i. 0 < i \<and> i < length kmers \<longrightarrow>
              (\<exists>d \<le> n. diffs ! i = take d (kmers ! i) \<and>
                 (\<forall>j. d \<le> j \<and> j < n \<longrightarrow> kmers ! i ! j = kmers ! (i - 1) ! j) \<and>
                 (0 < d \<longrightarrow> kmers ! i ! (d - 1) \<noteq> kmers ! (i - 1) ! (d - 1)) \<and>
                 kmers ! i = diffs ! i @ drop d (kmers ! (i - 1))))"
proof -
  let ?ds = "expected_diffs [] kmers"
  have run: "get_prefix_diffs kmers = Inr ?ds"
    using get_prefix_diffs_loop_eq [OF assms, of "[]" "[]"] by (simp add: get_prefix_diffs_def)
  have first: "kmers \<noteq> [] \<longrightarrow> ?ds ! 0 = kmers ! 0"
    by (cases kmers) auto
  have rest: "\<exists>d \<le> n. ?ds ! i = take d (kmers ! i) \<and>
                 (\<forall>j. d \<le> j \<and> j < n \<longrightarrow> kmers ! i ! j = kmers ! (i - 1) ! j) \<and>
                 (0 < d \<longrightarrow> kmers ! i ! (d - 1) \<noteq> kmers ! (i - 1) ! (d - 1)) \<and>
                 kmers ! i = ?ds ! i @ drop d (kmers ! (i - 1))"
    if i: "0 < i" "i < length kmers" for i
  proof -
    let ?k = "kmers ! i" and ?p = "kmers ! (i - 1)"
    let ?d = "diff_len ?k ?p (length ?p)"
    have lk: "length ?k = n" and lp: "length ?p = n"
      using assms i by auto
    have nth: "?ds ! i = (if ?p = [] then ?k else take ?d ?k)"
      using expected_diffs_nth [of i kmers "[]"] i by (simp add: Let_def)
    have tk: "?ds ! i = take ?d ?k"
    proof (cases "?p = []")
      case True
      then have "?k = []" using lk lp by simp
      then show ?thesis using nth by simp
    next
      case False
      then show ?thesis using nth by simp
    qed
    have "?d \<le> n" using diff_len_le [of ?k ?p "length ?p"] lp by simp
    moreover have "\<forall>j. ?d \<le> j \<and> j < n \<longrightarrow> ?k ! j = ?p ! j"
      using diff_len_agree [of ?k ?p "length ?p"] lp by simp
    moreover have "0 < ?d \<longrightarrow> ?k ! (?d - 1) \<noteq> ?p ! (?d - 1)"
      using diff_len_mismatch [of ?k ?p "length ?p"] by simp
    moreover have "?k = ?ds ! i @ drop ?d ?p"
      using diff_len_rebuild [of ?k ?p] lk lp tk by simp
    ultimately show ?thesis
      by (intro exI [of _ ?d] conjI) (simp_all only: tk)
  qed
  show ?thesis
    using run first rest by (simp add: length_expected_diffs)
qed

text \<open>
  The theorem at three kmers of length 3: the third kmer differs from the second at
  position 1 counted from the left, so its diff is its first two bases.
\<close>

theorem get_prefix_diffs_round_trip_witness:
  "map length [[1,1,1],[1,1,2],[1,2,2::nat]] = [3, 3, 3] \<and>
   get_prefix_diffs [[1,1,1],[1,1,2],[1,2,2]] = Inr [[1,1,1],[1,1,2],[1,2]]"
  using get_prefix_diffs_round_trip [of "[[1,1,1],[1,1,2],[1,2,2]]" 3]
  by (simp add: get_prefix_diffs_def)

section \<open>The decrement loop of next\_kmer\<close>

text \<open>
  C9. The loop of \<open>next_kmer\<close> does not stop when its index falls below zero: on the
  kmer \<open>[4]\<close> of size 1 it reads \<open>current_kmer[-1]\<close>, and \<open>generate_all_kmers 1\<close>
  reaches that kmer after \<open>[1]\<close>, \<open>[2]\<close> and \<open>[3]\<close>.
\<close>

theorem next_kmer_reads_below_zero:
  "next_kmer [4] 1 = Inl OutOfBounds \<and> generate_all_kmers 1 = Some (Inl OutOfBounds)"
  by (simp add: generate_all_kmers_def generate_all_kmers_loop.simps next_kmer_def)

section \<open>PRG encoding of a byte that is neither DNA nor a digit\<close>

text \<open>
  C5. \<open>encode_prg\<close> has no failure: on the text \<open>a!c\<close> it returns an encoded PRG, in
  which the byte \<open>!\<close> (33) has become the symbol \<open>33 - 48\<close> modulo \<open>2 ^ 32\<close>.
\<close>

theorem encode_prg_accepts_invalid_byte:
  "encode_prg ''a!c'' = [1, 4294967281, 2]"
  by (simp add: encode_prg_def encode_char_def flush_marker_digits_def
      concat_marker_digits_def char_as_uint32_def)

section \<open>The site mask and the allele mask\<close>

lemma length_allele_mask_loop: "length (allele_mask_loop prg a w) = length prg"
  by (induction prg arbitrary: a w) (simp_all add: Let_def)

lemma length_sites_mask_loop: "length (sites_mask_loop prg m w) = length prg"
  by (induction prg arbitrary: m w) (simp_all add: Let_def)











section \<open>Facts about the example PRG\<close>

lemma example_state_simps:
  "sa_interval (example_state iv) = iv" "variant_site_path (example_state iv) = []"
  "variant_site_state (example_state iv) = outside_variant_site"
  "\<not> invalid (example_state iv)"
  "(example_state iv)\<lparr>sa_interval := iv'\<rparr> = example_state iv'"
  by (simp_all add: example_state_def new_SearchState_def)

lemma example_rank_a_0: "dna_bwt_rank 0 1 example_prg_info = 0"
  by code_simp

lemma example_rank_a_13: "dna_bwt_rank (12 + 1) 1 example_prg_info = 5"
  by code_simp

lemma example_first_a: "C example_prg_info (char2comp example_prg_info 1) = 1"
  by code_simp






section \<open>Backward extension by one base\<close>

lemma rank1_mono: "i \<le> j \<Longrightarrow> rank1 bits i \<le> rank1 bits j"
proof -
  assume "i \<le> j"
  then have "[0..<j] = [0..<i] @ [i..<j]"
    by (metis le_add_diff_inverse upt_add_eq_append zero_le)
  then show ?thesis by (simp add: rank1_def)
qed

lemma rank1_0: "rank1 bits 0 = 0"
  by (simp add: rank1_def)

lemma dna_bwt_rank_mono: "i \<le> j \<Longrightarrow> dna_bwt_rank i c pi \<le> dna_bwt_rank j c pi"
  by (simp add: dna_bwt_rank_def rank1_mono)

lemma dna_bwt_rank_0: "dna_bwt_rank 0 c pi = 0"
  by (simp add: dna_bwt_rank_def rank1_0)

lemma wrap_pred_pos: "0 < x \<Longrightarrow> x < M \<Longrightarrow> wrap_pred M x = x - 1"
proof -
  assume a: "0 < x" "x < M"
  then have "x + M - 1 = (x - 1) + M" by arith
  then have "wrap_pred M x = ((x - 1) + M) mod M" by (simp only: wrap_pred_def)
  also have "\<dots> = (x - 1) mod M" by (rule mod_add_self2)
  also have "\<dots> = x - 1" using a by simp
  finally show ?thesis .
qed

lemma wrap_pred_0: "0 < M \<Longrightarrow> wrap_pred M 0 = M - 1"
  by (simp add: wrap_pred_def)

lemma wrap_pred_inj: "x < M \<Longrightarrow> y < M \<Longrightarrow> wrap_pred M x = wrap_pred M y \<Longrightarrow> x = y"
proof -
  assume a: "x < M" "y < M" "wrap_pred M x = wrap_pred M y"
  have M: "0 < M" using a(1) by simp
  show "x = y"
  proof (cases "x = 0")
    case True
    show ?thesis
    proof (cases "y = 0")
      case True with \<open>x = 0\<close> show ?thesis by simp
    next
      case False
      then have "wrap_pred M y = y - 1" using a(2) by (simp add: wrap_pred_pos)
      moreover have "wrap_pred M x = M - 1" using True M by (simp add: wrap_pred_0)
      ultimately show ?thesis using a False by simp
    qed
  next
    case False
    then have x: "wrap_pred M x = x - 1" using a(1) by (simp add: wrap_pred_pos)
    show ?thesis
    proof (cases "y = 0")
      case True
      then have "wrap_pred M y = M - 1" using M by (simp add: wrap_pred_0)
      then show ?thesis using x a False by simp
    next
      case y: False
      then have "wrap_pred M y = y - 1" using a(2) by (simp add: wrap_pred_pos)
      then show ?thesis using x a False y by simp
    qed
  qed
qed

lemma base_next_sa_interval_dna:
  assumes c: "c \<in> {1, 2, 3, 4}"
    and ne: "lo \<le> hi"
    and f1: "hi + 1 < M"
    and f2: "F + dna_bwt_rank (hi + 1) c pi < M"
  shows "base_next_sa_interval M c (F mod M) (lo, hi) pi =
           (F + dna_bwt_rank lo c pi, wrap_pred M (F + dna_bwt_rank (hi + 1) c pi))"
proof -
  have c4: "\<not> c > 4" using c by auto
  have mono: "dna_bwt_rank lo c pi \<le> dna_bwt_rank (hi + 1) c pi"
    using ne by (simp add: dna_bwt_rank_mono)
  have F: "F mod M = F" using f2 by simp
  have rh: "dna_bwt_rank (hi + 1) c pi mod M = dna_bwt_rank (hi + 1) c pi" using f2 by simp
  have rl: "dna_bwt_rank lo c pi mod M = dna_bwt_rank lo c pi" using f2 mono by simp
  have h1: "(hi + 1) mod M = hi + 1" using f1 by simp
  have s: "(F + dna_bwt_rank lo c pi) mod M = F + dna_bwt_rank lo c pi" using f2 mono by simp
  have e: "(F + dna_bwt_rank (hi + 1) c pi) mod M = F + dna_bwt_rank (hi + 1) c pi"
    using f2 by simp
  have start: "(if lo \<le> 0 then 0 else dna_bwt_rank lo c pi mod M) = dna_bwt_rank lo c pi"
    using rl by (auto simp: dna_bwt_rank_0)
  show ?thesis
    using c4
    by (simp add: base_next_sa_interval_def Let_def F h1 rh rl s e dna_bwt_rank_0
        del: One_nat_def)
qed

lemma search_base_backwards_append:
  "search_base_backwards M c (xs @ ys) pi =
     search_base_backwards M c xs pi @ search_base_backwards M c ys pi"
  by (simp add: search_base_backwards_def Let_def)

text \<open>
  C1. Let \<open>s\<close> be a search state with a non-empty interval \<open>[lo, hi]\<close> and \<open>c\<close> a DNA base.
  With \<open>next_lo = C[c] + rank_bwt(c, lo)\<close> and \<open>next_hi = C[c] + rank_bwt(c, hi + 1) - 1\<close>
  as integers, where \<open>rank_bwt\<close> is the rank \<open>dna_bwt_rank\<close> of the DNA mask of \<open>c\<close>, the
  backward extension drops the state when \<open>next_lo > next_hi\<close> and otherwise emits it
  with the interval \<open>[next_lo, next_hi]\<close> and nothing else changed. The interval and the
  new end are taken to fit \<open>SA_Index\<close>, whose number of values is \<open>M\<close>. By
  \<open>search_base_backwards_append\<close> each state of a list is extended on its own.
\<close>

theorem base_extension:
  assumes c: "c \<in> {1, 2, 3, 4}"
    and ne: "fst (sa_interval s) \<le> snd (sa_interval s)"
    and ok: "\<not> invalid s"
    and f1: "snd (sa_interval s) + 1 < M"
    and f2: "C pi (char2comp pi c) + dna_bwt_rank (snd (sa_interval s) + 1) c pi < M"
  defines "next_lo \<equiv> int (C pi (char2comp pi c) + dna_bwt_rank (fst (sa_interval s)) c pi)"
    and "next_hi \<equiv> int (C pi (char2comp pi c) + dna_bwt_rank (snd (sa_interval s) + 1) c pi) - 1"
  shows "search_base_backwards M c [s] pi =
           (if next_lo > next_hi then []
            else [s\<lparr>sa_interval := (nat next_lo, nat next_hi)\<rparr>])"
proof -
  let ?F = "C pi (char2comp pi c)"
  let ?lo = "fst (sa_interval s)" and ?hi = "snd (sa_interval s)"
  let ?rl = "dna_bwt_rank ?lo c pi" and ?rh = "dna_bwt_rank (?hi + 1) c pi"
  have mono: "?rl \<le> ?rh" using ne by (simp add: dna_bwt_rank_mono)
  have iv: "base_next_sa_interval M c (?F mod M) (sa_interval s) pi = (?F + ?rl, wrap_pred M (?F + ?rh))"
    using base_next_sa_interval_dna [OF c ne f1 f2] by simp
  have valid: "(wrap_pred M (?F + ?rl) \<noteq> wrap_pred M (?F + ?rh)) = (?rl < ?rh)"
  proof (cases "?rl = ?rh")
    case True then show ?thesis by simp
  next
    case False
    have "?F + ?rl < M" "?F + ?rh < M" using f2 mono by auto
    then have "wrap_pred M (?F + ?rl) \<noteq> wrap_pred M (?F + ?rh)"
      using wrap_pred_inj [of "?F + ?rl" M "?F + ?rh"] False by auto
    then show ?thesis using False mono by simp
  qed
  have step: "search_fm_index_base_backwards M c ?F s pi =
      (if ?rl < ?rh then s\<lparr>sa_interval := (?F + ?rl, wrap_pred M (?F + ?rh))\<rparr>
       else \<lparr>sa_interval = (0, 0), variant_site_path = [],
               variant_site_state = unknown, invalid = True\<rparr>)"
    unfolding search_fm_index_base_backwards_def Let_def iv fst_conv snd_conv valid by simp
  show ?thesis
  proof (cases "?rl < ?rh")
    case True
    then have "0 < ?F + ?rh" by simp
    then have e: "wrap_pred M (?F + ?rh) = ?F + ?rh - 1" using f2 by (simp add: wrap_pred_pos)
    have n: "\<not> next_lo > next_hi" using True by (simp add: next_lo_def next_hi_def)
    have "nat next_lo = ?F + ?rl" by (simp add: next_lo_def)
    moreover have "nat next_hi = ?F + ?rh - 1" using True by (simp add: next_hi_def)
    ultimately show ?thesis
      using True n step e ok by (simp add: search_base_backwards_def Let_def)
  next
    case False
    then have n: "next_lo > next_hi" using mono by (simp add: next_lo_def next_hi_def)
    show ?thesis using False n step by (simp add: search_base_backwards_def Let_def)
  qed
qed

text \<open>
  The theorem on the example PRG: the full interval \<open>[0, 12]\<close> extended by \<open>a\<close> (1)
  becomes \<open>[1, 5]\<close>, the rows of the five suffixes that start with \<open>a\<close>.
\<close>

theorem base_extension_witness:
  "search_base_backwards (2 ^ 64) 1 [example_state (0, 12)] example_prg_info =
     [example_state (1, 5)]"
proof -
  have c: "(1::nat) \<in> {1, 2, 3, 4}" by simp
  have ne: "fst (sa_interval (example_state (0, 12))) \<le> snd (sa_interval (example_state (0, 12)))"
    by (simp only: example_state_simps fst_conv snd_conv; simp)
  have ok: "\<not> invalid (example_state (0, 12))" by (rule example_state_simps)
  have f1: "snd (sa_interval (example_state (0, 12))) + 1 < (2 ^ 64 :: nat)"
    by (simp only: example_state_simps fst_conv snd_conv; simp)
  have f2: "C example_prg_info (char2comp example_prg_info 1)
              + dna_bwt_rank (snd (sa_interval (example_state (0, 12))) + 1) 1 example_prg_info
            < (2 ^ 64 :: nat)"
    by (simp only: example_state_simps fst_conv snd_conv example_rank_a_13 example_first_a; simp)
  show ?thesis
    using base_extension [OF c ne ok f1 f2]
    by (simp only: example_state_simps fst_conv snd_conv example_rank_a_13 example_rank_a_0
        example_first_a; simp)
qed

section \<open>Marker handling\<close>








section \<open>Allele-encapsulated states\<close>

lemma takeWhile_upt_last:
  "last (i # takeWhile P [Suc i..<e]) = i + length (takeWhile P [Suc i..<e])"
proof (cases "length (takeWhile P [Suc i..<e]) = 0")
  case True
  then show ?thesis by simp
next
  case False
  let ?k = "length (takeWhile P [Suc i..<e])"
  have kle: "?k \<le> length [Suc i..<e]" by (rule length_takeWhile_le)
  have len: "length [Suc i..<e] = e - Suc i" by simp
  have k0: "0 < ?k" using False by simp
  have le: "Suc i + ?k \<le> e" using kle len k0 by linarith
  have "takeWhile P [Suc i..<e] = take ?k [Suc i..<e]"
    by (rule takeWhile_eq_take)
  also have "\<dots> = [Suc i..<Suc i + ?k]"
    using le by (rule take_upt)
  finally have tw: "takeWhile P [Suc i..<e] = [Suc i..<Suc i + ?k]" .
  have "takeWhile P [Suc i..<e] \<noteq> []" using False by simp
  then have "last (i # takeWhile P [Suc i..<e]) = last (takeWhile P [Suc i..<e])" by simp
  also have "\<dots> = last [Suc i..<Suc i + ?k]" using tw by simp
  also have "\<dots> = Suc i + ?k - 1" using k0 by (intro last_upt) simp
  also have "\<dots> = i + ?k" by simp
  finally show ?thesis .
qed

lemma dropWhile_upt: "\<exists>n. dropWhile P [i..<e] = [n..<e]"
proof -
  let ?k = "length (takeWhile P [i..<e])"
  have "dropWhile P [i..<e] = drop ?k [i..<e]" by (rule dropWhile_eq_drop)
  also have "\<dots> = [i + ?k..<e]" by (simp add: drop_upt)
  finally show ?thesis by blast
qed

lemma cache_flush_empty: "cache_empty c \<Longrightarrow> cache_flush c out = (c, out)"
  by (simp add: cache_flush_def)

lemma cache_flush_full:
  "\<not> cache_empty c \<Longrightarrow>
   cache_flush c out = (c\<lparr>cache_empty := True\<rparr>, out @ [cache_search_state c])"
  by (simp add: cache_flush_def)

lemma handle_loop_runs:
  "(cache_empty c \<longrightarrow>
      handle_allele_encapsulated_state_loop [n..<e] pi out c =
        Inr (out @ map (run_state pi) (locus_runs (locus_at pi) [n..<e]))) \<and>
   (\<not> cache_empty c \<and> cache_search_state c = new_SearchState (a, b) [k] within_variant_site \<and>
    n = Suc b \<and> fst k \<noteq> 0 \<longrightarrow>
      handle_allele_encapsulated_state_loop [n..<e] pi out c =
        Inr (out
             @ [new_SearchState
                  (a, b + length (takeWhile (\<lambda>j. locus_at pi j = Some k) [n..<e])) [k]
                  within_variant_site]
             @ map (run_state pi)
                 (locus_runs (locus_at pi)
                    (dropWhile (\<lambda>j. locus_at pi j = Some k) [n..<e]))))"
proof (induction "e - n" arbitrary: n out c a b k)
  case 0
  then have e: "[n..<e] = []" by simp
  show ?case by (simp only: e) (simp add: cache_flush_def)
next
  case (Suc d)
  then have ne: "n < e" and d: "d = e - Suc n" by auto
  then have rows: "[n..<e] = n # [Suc n..<e]" by (simp add: upt_conv_Cons)
  note IH = Suc.hyps(1) [OF d]
  let ?rest = "[Suc n..<e]"
  let ?site = "sites_mask pi (fm_index pi n)" and ?allele = "allele_mask pi (fm_index pi n)"
  show ?case
  proof (cases "?site = 0")
    case outside: True
    then have key: "locus_at pi n = None" by (simp add: locus_at_def)
    have rs: "run_state pi [n] = new_SearchState (n, n) [] outside_variant_site"
      using key by (simp add: run_state_def)
    have A: "handle_allele_encapsulated_state_loop [n..<e] pi out c =
               Inr (out @ map (run_state pi) (locus_runs (locus_at pi) [n..<e]))"
      if emp: "cache_empty c"
    proof -
      let ?c2 = "cache_set c (new_SearchState (n, n) [] outside_variant_site)"
      have f2: "cache_flush ?c2 out =
                  (?c2\<lparr>cache_empty := True\<rparr>, out @ [new_SearchState (n, n) [] outside_variant_site])"
        by (simp add: cache_flush_def cache_set_def)
      have "handle_allele_encapsulated_state_loop [n..<e] pi out c =
              handle_allele_encapsulated_state_loop ?rest pi
                (out @ [new_SearchState (n, n) [] outside_variant_site]) (?c2\<lparr>cache_empty := True\<rparr>)"
        using outside emp f2 by (simp add: rows Let_def cache_flush_empty)
      also have "\<dots> = Inr ((out @ [new_SearchState (n, n) [] outside_variant_site])
                           @ map (run_state pi) (locus_runs (locus_at pi) ?rest))"
        using IH [where c = "?c2\<lparr>cache_empty := True\<rparr>"] by simp
      finally show ?thesis using key rs by (simp add: rows)
    qed
    have B: "handle_allele_encapsulated_state_loop [n..<e] pi out c =
        Inr (out
             @ [new_SearchState
                  (a, b + length (takeWhile (\<lambda>j. locus_at pi j = Some k) [n..<e])) [k]
                  within_variant_site]
             @ map (run_state pi)
                 (locus_runs (locus_at pi)
                    (dropWhile (\<lambda>j. locus_at pi j = Some k) [n..<e])))"
      if full: "\<not> cache_empty c"
        and cs: "cache_search_state c = new_SearchState (a, b) [k] within_variant_site"
    proof -
      let ?c1 = "c\<lparr>cache_empty := True\<rparr>"
      let ?c2 = "cache_set ?c1 (new_SearchState (n, n) [] outside_variant_site)"
      let ?o1 = "out @ [new_SearchState (a, b) [k] within_variant_site]"
      have f1: "cache_flush c out = (?c1, ?o1)"
        using full cs by (simp add: cache_flush_full)
      have f2: "cache_flush ?c2 ?o1 =
                  (?c2\<lparr>cache_empty := True\<rparr>, ?o1 @ [new_SearchState (n, n) [] outside_variant_site])"
        by (simp add: cache_flush_def cache_set_def)
      have "handle_allele_encapsulated_state_loop [n..<e] pi out c =
              handle_allele_encapsulated_state_loop ?rest pi
                (?o1 @ [new_SearchState (n, n) [] outside_variant_site]) (?c2\<lparr>cache_empty := True\<rparr>)"
        using outside f1 f2 by (simp add: rows Let_def)
      also have "\<dots> = Inr ((?o1 @ [new_SearchState (n, n) [] outside_variant_site])
                           @ map (run_state pi) (locus_runs (locus_at pi) ?rest))"
        using IH [where c = "?c2\<lparr>cache_empty := True\<rparr>"] by simp
      finally show ?thesis using key rs by (simp add: rows)
    qed
    show ?thesis using A B by blast
  next
    case inside: False
    let ?k = "(?site, ?allele)"
    let ?P = "\<lambda>j. locus_at pi j = Some ?k"
    have key: "locus_at pi n = Some ?k" using inside by (simp add: locus_at_def)
    have rs: "run_state pi (n # takeWhile ?P ?rest) =
                new_SearchState (n, n + length (takeWhile ?P ?rest)) [?k] within_variant_site"
      using key takeWhile_upt_last [of n ?P e] by (simp add: run_state_def)
    have start: "handle_allele_encapsulated_state_loop ?rest pi out'
                   (cache_set c' (new_SearchState (n, n) [?k] within_variant_site)) =
                 Inr (out' @ map (run_state pi) (locus_runs (locus_at pi) [n..<e]))"
      for out' c'
    proof -
      let ?c = "cache_set c' (new_SearchState (n, n) [?k] within_variant_site)"
      have "handle_allele_encapsulated_state_loop ?rest pi out' ?c =
              Inr (out'
                   @ [new_SearchState (n, n + length (takeWhile ?P ?rest)) [?k] within_variant_site]
                   @ map (run_state pi) (locus_runs (locus_at pi) (dropWhile ?P ?rest)))"
        using IH [where out = out' and c = ?c and a = n and b = n and k = ?k] inside by (simp add: cache_set_def)
      then show ?thesis using key rs by (simp add: rows)
    qed
    have A: "handle_allele_encapsulated_state_loop [n..<e] pi out c =
               Inr (out @ map (run_state pi) (locus_runs (locus_at pi) [n..<e]))"
      if emp: "cache_empty c"
    proof -
      have "handle_allele_encapsulated_state_loop [n..<e] pi out c =
              handle_allele_encapsulated_state_loop ?rest pi out
                (cache_set c (new_SearchState (n, n) [?k] within_variant_site))"
        using inside emp by (simp add: rows Let_def)
      then show ?thesis using start [of out c] by simp
    qed
    have B: "handle_allele_encapsulated_state_loop [n..<e] pi out c =
        Inr (out
             @ [new_SearchState
                  (a, b + length (takeWhile (\<lambda>j. locus_at pi j = Some k) [n..<e])) [k]
                  within_variant_site]
             @ map (run_state pi)
                 (locus_runs (locus_at pi)
                    (dropWhile (\<lambda>j. locus_at pi j = Some k) [n..<e])))"
      if full: "\<not> cache_empty c"
        and cs: "cache_search_state c = new_SearchState (a, b) [k] within_variant_site"
        and nb: "n = Suc b" and k0: "fst k \<noteq> 0"
    proof (cases "?k = k")
      case same: True
      let ?c1 = "c\<lparr>cache_search_state := new_SearchState (a, n) [k] within_variant_site\<rparr>"
      have up: "cache_update_sa_interval_max c n = Inr ?c1"
        using full cs nb by (simp add: cache_update_sa_interval_max_def new_SearchState_def)
      have path: "variant_site_path (cache_search_state c) = [k]"
        using cs by (simp add: new_SearchState_def)
      have "handle_allele_encapsulated_state_loop [n..<e] pi out c =
              handle_allele_encapsulated_state_loop ?rest pi out ?c1"
        using inside full same up path by (simp add: rows Let_def)
      also have "\<dots> = Inr (out
             @ [new_SearchState
                  (a, n + length (takeWhile (\<lambda>j. locus_at pi j = Some k) ?rest)) [k]
                  within_variant_site]
             @ map (run_state pi)
                 (locus_runs (locus_at pi)
                    (dropWhile (\<lambda>j. locus_at pi j = Some k) ?rest)))"
        using IH [where out = out and c = ?c1 and a = a and b = n and k = k] full k0 by simp
      finally have r: "handle_allele_encapsulated_state_loop [n..<e] pi out c =
           Inr (out
             @ [new_SearchState
                  (a, n + length (takeWhile (\<lambda>j. locus_at pi j = Some k) ?rest)) [k]
                  within_variant_site]
             @ map (run_state pi)
                 (locus_runs (locus_at pi)
                    (dropWhile (\<lambda>j. locus_at pi j = Some k) ?rest)))" .
      have tw: "length (takeWhile (\<lambda>j. locus_at pi j = Some k) [n..<e]) =
                  Suc (length (takeWhile (\<lambda>j. locus_at pi j = Some k) ?rest))"
        using key same by (simp add: rows)
      have dw: "dropWhile (\<lambda>j. locus_at pi j = Some k) [n..<e] =
                  dropWhile (\<lambda>j. locus_at pi j = Some k) ?rest"
        using key same by (simp add: rows)
      have eq: "b + length (takeWhile (\<lambda>j. locus_at pi j = Some k) [n..<e]) =
                  n + length (takeWhile (\<lambda>j. locus_at pi j = Some k) ?rest)"
        using tw nb by simp
      show ?thesis by (simp only: r eq dw)
    next
      case differ: False
      let ?c1 = "c\<lparr>cache_empty := True\<rparr>"
      let ?o1 = "out @ [new_SearchState (a, b) [k] within_variant_site]"
      have f1: "cache_flush c out = (?c1, ?o1)"
        using full cs by (simp add: cache_flush_full)
      have path: "variant_site_path (cache_search_state c) = [k]"
        using cs by (simp add: new_SearchState_def)
      have "handle_allele_encapsulated_state_loop [n..<e] pi out c =
              handle_allele_encapsulated_state_loop ?rest pi ?o1
                (cache_set ?c1 (new_SearchState (n, n) [?k] within_variant_site))"
        using inside full differ f1 path by (simp add: rows Let_def)
      also have "\<dots> = Inr (?o1 @ map (run_state pi) (locus_runs (locus_at pi) [n..<e]))"
        by (rule start)
      finally show ?thesis using key differ by (simp add: rows)
    qed
    show ?thesis using A B by blast
  qed
qed

lemma handle_allele_encapsulated_state_eq:
  "variant_site_path s = [] \<Longrightarrow>
   handle_allele_encapsulated_state s pi =
     Inr (map (run_state pi) (locus_runs (locus_at pi) (sa_rows (sa_interval s))))"
  using handle_loop_runs [of cache_init "fst (sa_interval s)" "Suc (snd (sa_interval s))" pi "[]"]
  by (simp add: handle_allele_encapsulated_state_def sa_rows_def cache_init_def)

lemma handle_allele_encapsulated_states_loop_eq:
  "handle_allele_encapsulated_states_loop states pi acc =
     Inr (acc @ concat (map (\<lambda>s. if variant_site_path s \<noteq> [] then [s]
                                   else map (run_state pi)
                                          (locus_runs (locus_at pi) (sa_rows (sa_interval s))))
                          states))"
  by (induction states arbitrary: acc) (simp_all add: handle_allele_encapsulated_state_eq)

text \<open>
  C4. \<open>handle_allele_encapsulated_states\<close> passes every state with a non-empty path
  through unchanged, and replaces every state with an empty path by the states of the
  maximal runs of its rows, in the order of the rows: a row outside every site gives a
  state with that single row and an empty path, and a maximal run of consecutive rows
  with one locus gives one state with the interval of the run and that locus as its
  path. No assertion of the source fails.
\<close>

theorem allele_encapsulated_split:
  "handle_allele_encapsulated_states states pi =
     Inr (concat (map (\<lambda>s. if variant_site_path s \<noteq> [] then [s]
                             else map (run_state pi)
                                    (locus_runs (locus_at pi) (sa_rows (sa_interval s))))
                    states))"
  by (simp add: handle_allele_encapsulated_states_def handle_allele_encapsulated_states_loop_eq)

text \<open>
  The theorem on the example PRG: a state with a path is kept; the rows 1 to 3 all lie
  in allele 1 and stay one state; the rows 6 to 9 split into allele 1, allele 2 and two
  rows outside the site.
\<close>

theorem allele_encapsulated_split_witness:
  "handle_allele_encapsulated_states
     [example_state (1, 3), new_SearchState (12, 12) [(5, 1)] within_variant_site,
      example_state (6, 9)] example_prg_info =
   Inr [new_SearchState (1, 3) [(5, 1)] within_variant_site,
        new_SearchState (12, 12) [(5, 1)] within_variant_site,
        new_SearchState (6, 6) [(5, 1)] within_variant_site,
        new_SearchState (7, 7) [(5, 2)] within_variant_site,
        new_SearchState (8, 8) [] outside_variant_site,
        new_SearchState (9, 9) [] outside_variant_site]"
proof -
  have "concat (map (\<lambda>s. if variant_site_path s \<noteq> [] then [s]
                             else map (run_state example_prg_info)
                                    (locus_runs (locus_at example_prg_info)
                                       (sa_rows (sa_interval s))))
                  [example_state (1, 3), new_SearchState (12, 12) [(5, 1)] within_variant_site,
                   example_state (6, 9)]) =
        [new_SearchState (1, 3) [(5, 1)] within_variant_site,
         new_SearchState (12, 12) [(5, 1)] within_variant_site,
         new_SearchState (6, 6) [(5, 1)] within_variant_site,
         new_SearchState (7, 7) [(5, 2)] within_variant_site,
         new_SearchState (8, 8) [] outside_variant_site,
         new_SearchState (9, 9) [] outside_variant_site]"
    by code_simp
  then show ?thesis
    by (simp only: allele_encapsulated_split)
qed

section \<open>Coverage recording\<close>

subsection \<open>Shapes and bumps\<close>

lemma length_bump_list: "length (bump_list p sites) = length sites"
  by (cases p) (simp add: bump_list_def)

lemma length_bump_list_nth:
  "length (bump_list p sites ! s) = length (sites ! s)"
  by (cases p) (simp add: bump_list_def nth_list_update)

lemma length_bump_list_nth_nth:
  "length (bump_list p sites ! s ! a) = length (sites ! s ! a)"
  by (cases p) (simp add: bump_list_def nth_list_update)

lemma bump_list_nth:
  "s' < length sites \<Longrightarrow> a' < length (sites ! s') \<Longrightarrow> i' < length (sites ! s' ! a') \<Longrightarrow>
   bump_list (s, a, i) sites ! s' ! a' ! i' =
     (if s' = s \<and> a' = a \<and> i' = i then increment_base (sites ! s' ! a' ! i')
      else sites ! s' ! a' ! i')"
  by (auto simp: bump_list_def nth_list_update)

lemma nested_list_eqI:
  fixes x y :: "'a list list list"
  assumes l1: "length x = length y"
    and l2: "\<And>s. s < length x \<Longrightarrow> length (x ! s) = length (y ! s)"
    and l3: "\<And>s a. s < length x \<Longrightarrow> a < length (x ! s) \<Longrightarrow> length (x ! s ! a) = length (y ! s ! a)"
    and v: "\<And>s a i. s < length x \<Longrightarrow> a < length (x ! s) \<Longrightarrow> i < length (x ! s ! a) \<Longrightarrow>
              x ! s ! a ! i = y ! s ! a ! i"
  shows "x = y"
proof (rule nth_equalityI [OF l1])
  fix s assume s: "s < length x"
  show "x ! s = y ! s"
  proof (rule nth_equalityI [OF l2 [OF s]])
    fix a assume a: "a < length (x ! s)"
    show "x ! s ! a = y ! s ! a"
    proof (rule nth_equalityI [OF l3 [OF s a]])
      fix i assume "i < length (x ! s ! a)"
      then show "x ! s ! a ! i = y ! s ! a ! i" by (rule v [OF s a])
    qed
  qed
qed

lemma bump_list_commute:
  "bump_list p (bump_list q sites) = bump_list q (bump_list p sites)"
proof (cases p; cases q)
  fix s a i s' a' i'
  assume p: "p = (s, a, i)" and q: "q = (s', a', i')"
  show ?thesis
    unfolding p q
  proof (rule nested_list_eqI)
    show "length (bump_list (s, a, i) (bump_list (s', a', i') sites)) =
          length (bump_list (s', a', i') (bump_list (s, a, i) sites))"
      by (simp add: length_bump_list)
  next
    fix k
    show "length (bump_list (s, a, i) (bump_list (s', a', i') sites) ! k) =
          length (bump_list (s', a', i') (bump_list (s, a, i) sites) ! k)"
      by (simp add: length_bump_list_nth)
  next
    fix k l
    show "length (bump_list (s, a, i) (bump_list (s', a', i') sites) ! k ! l) =
          length (bump_list (s', a', i') (bump_list (s, a, i) sites) ! k ! l)"
      by (simp add: length_bump_list_nth_nth)
  next
    fix k l m
    assume "k < length (bump_list (s, a, i) (bump_list (s', a', i') sites))"
      and "l < length (bump_list (s, a, i) (bump_list (s', a', i') sites) ! k)"
      and "m < length (bump_list (s, a, i) (bump_list (s', a', i') sites) ! k ! l)"
    then have r: "k < length sites" "l < length (sites ! k)" "m < length (sites ! k ! l)"
      by (simp_all add: length_bump_list length_bump_list_nth length_bump_list_nth_nth)
    have r1: "k < length (bump_list (s', a', i') sites)"
      "l < length (bump_list (s', a', i') sites ! k)"
      "m < length (bump_list (s', a', i') sites ! k ! l)"
      using r by (simp_all add: length_bump_list length_bump_list_nth length_bump_list_nth_nth)
    have r2: "k < length (bump_list (s, a, i) sites)"
      "l < length (bump_list (s, a, i) sites ! k)"
      "m < length (bump_list (s, a, i) sites ! k ! l)"
      using r by (simp_all add: length_bump_list length_bump_list_nth length_bump_list_nth_nth)
    show "bump_list (s, a, i) (bump_list (s', a', i') sites) ! k ! l ! m =
          bump_list (s', a', i') (bump_list (s, a, i) sites) ! k ! l ! m"
      unfolding bump_list_nth [OF r1] bump_list_nth [OF r2] bump_list_nth [OF r]
      by auto
  qed
qed

lemma fold_commute_same:
  assumes "\<And>x y s. f x (f y s) = f y (f x s)"
  shows "fold f xs (fold f ys s) = fold f ys (fold f xs s)"
proof (induction xs arbitrary: s)
  case Nil
  then show ?case by simp
next
  case (Cons x xs)
  have "f x (fold f ys s) = fold f ys (f x s)"
    by (induction ys arbitrary: s) (simp_all add: assms)
  then show ?case using Cons by simp
qed

lemma fold_bump_list_commute:
  "fold bump_list ps (fold bump_list qs sites) = fold bump_list qs (fold bump_list ps sites)"
  by (rule fold_commute_same) (rule bump_list_commute)

lemma fold_inc_commute:
  "fold (\<lambda>k (m :: 'k \<Rightarrow> nat). m(k := Suc (m k))) ks (fold (\<lambda>k m. m(k := Suc (m k))) ks' m) =
   fold (\<lambda>k m. m(k := Suc (m k))) ks' (fold (\<lambda>k m. m(k := Suc (m k))) ks m)"
  by (rule fold_commute_same) (auto simp: fun_eq_iff)

lemma shape_bump_list: "map (map length) (bump_list p sites) = map (map length) sites"
proof (rule nth_equalityI)
  show "length (map (map length) (bump_list p sites)) = length (map (map length) sites)"
    by (simp add: length_bump_list)
next
  fix s assume "s < length (map (map length) (bump_list p sites))"
  then have s: "s < length sites" by (simp add: length_bump_list)
  have "map length (bump_list p sites ! s) = map length (sites ! s)"
    by (rule nth_equalityI) (simp_all add: length_bump_list_nth length_bump_list_nth_nth)
  then show "map (map length) (bump_list p sites) ! s = map (map length) sites ! s"
    using s by (simp add: length_bump_list)
qed

lemma shape_fold_bump_list:
  "map (map length) (fold bump_list ps sites) = map (map length) sites"
  by (induction ps arbitrary: sites) (simp_all add: shape_bump_list)

lemma base_shape_with_bumps: "base_shape (with_bumps ps coverage) = base_shape coverage"
  by (simp add: base_shape_def with_bumps_def shape_fold_bump_list)

lemma with_bumps_append:
  "with_bumps qs (with_bumps ps coverage) = with_bumps (ps @ qs) coverage"
  by (simp add: with_bumps_def)

lemma with_bumps_Nil: "with_bumps [] coverage = coverage"
  by (simp add: with_bumps_def)

lemma increment_bases_bumps:
  "s < length sites \<Longrightarrow> a < length (sites ! s) \<Longrightarrow> \<forall>i \<in> set is. i < length (sites ! s ! a) \<Longrightarrow>
   sites[s := (sites ! s)[a := increment_bases is (sites ! s ! a)]] =
     fold bump_list (map (\<lambda>i. (s, a, i)) is) sites"
proof (induction "is" arbitrary: sites)
  case Nil
  then show ?case by simp
next
  case (Cons i "is")
  let ?xs = "(sites ! s ! a)[i := increment_base (sites ! s ! a ! i)]"
  let ?sites1 = "sites[s := (sites ! s)[a := ?xs]]"
  have b: "bump_list (s, a, i) sites = ?sites1"
    using Cons.prems by (simp add: bump_list_def)
  have p1: "s < length ?sites1" using Cons.prems by simp
  have p2: "a < length (?sites1 ! s)" using Cons.prems by simp
  have n: "?sites1 ! s ! a = ?xs" using Cons.prems by simp
  have p3: "\<forall>j \<in> set is. j < length (?sites1 ! s ! a)" using Cons.prems n by simp
  have "?sites1[s := (?sites1 ! s)[a := increment_bases is (?sites1 ! s ! a)]] =
          fold bump_list (map (\<lambda>i. (s, a, i)) is) ?sites1"
    by (rule Cons.IH [OF p1 p2 p3])
  moreover have "?sites1[s := (?sites1 ! s)[a := increment_bases is (?sites1 ! s ! a)]] =
          sites[s := (sites ! s)[a := increment_bases (i # is) (sites ! s ! a)]]"
    using Cons.prems by (simp add: n)
  ultimately show ?case by (simp add: b)
qed

subsection \<open>Uniform functions\<close>

lemma uniform_return: "uniform (\<lambda>coverage. Inr (coverage, x))"
  unfolding uniform_def
proof (intro allI disjI2)
  fix shape :: "nat list list"
  show "\<exists>positions y. \<forall>coverage. base_shape coverage = shape \<longrightarrow>
          (Inr (coverage, x) :: error + Coverage \<times> 'a) = Inr (with_bumps positions coverage, y)"
    by (intro exI [of _ "[]"] exI [of _ x]) (simp add: with_bumps_Nil)
qed

lemma uniform_error: "uniform (\<lambda>coverage. Inl e)"
  unfolding uniform_def by blast

lemma uniform_bind:
  assumes f: "uniform f" and g: "\<And>x. uniform (\<lambda>coverage. g coverage x)"
  shows "uniform (\<lambda>coverage. case f coverage of Inl e \<Rightarrow> Inl e | Inr (coverage1, x) \<Rightarrow> g coverage1 x)"
  unfolding uniform_def
proof
  fix shape
  let ?h = "\<lambda>coverage. case f coverage of Inl e \<Rightarrow> Inl e | Inr (coverage1, x) \<Rightarrow> g coverage1 x"
  from f have "(\<exists>e. \<forall>coverage. base_shape coverage = shape \<longrightarrow> f coverage = Inl e) \<or>
        (\<exists>positions x. \<forall>coverage. base_shape coverage = shape \<longrightarrow>
           f coverage = Inr (with_bumps positions coverage, x))"
    unfolding uniform_def by blast
  then show "(\<exists>e. \<forall>coverage. base_shape coverage = shape \<longrightarrow> ?h coverage = Inl e) \<or>
        (\<exists>positions x. \<forall>coverage. base_shape coverage = shape \<longrightarrow>
           ?h coverage = Inr (with_bumps positions coverage, x))"
  proof
    assume "\<exists>e. \<forall>coverage. base_shape coverage = shape \<longrightarrow> f coverage = Inl e"
    then obtain e where "\<forall>coverage. base_shape coverage = shape \<longrightarrow> f coverage = Inl e" ..
    then have "\<forall>coverage. base_shape coverage = shape \<longrightarrow> ?h coverage = Inl e" by simp
    then show ?thesis by blast
  next
    assume "\<exists>positions x. \<forall>coverage. base_shape coverage = shape \<longrightarrow>
           f coverage = Inr (with_bumps positions coverage, x)"
    then obtain ps x where fx: "\<forall>coverage. base_shape coverage = shape \<longrightarrow>
           f coverage = Inr (with_bumps ps coverage, x)" by blast
    from g [of x] have "(\<exists>e. \<forall>coverage. base_shape coverage = shape \<longrightarrow> g coverage x = Inl e) \<or>
        (\<exists>positions y. \<forall>coverage. base_shape coverage = shape \<longrightarrow>
           g coverage x = Inr (with_bumps positions coverage, y))"
      unfolding uniform_def by blast
    then show ?thesis
    proof
      assume "\<exists>e. \<forall>coverage. base_shape coverage = shape \<longrightarrow> g coverage x = Inl e"
      then obtain e where ge: "\<forall>coverage. base_shape coverage = shape \<longrightarrow> g coverage x = Inl e" ..
      have "\<forall>coverage. base_shape coverage = shape \<longrightarrow> ?h coverage = Inl e"
        using fx ge by (simp add: base_shape_with_bumps)
      then show ?thesis by blast
    next
      assume "\<exists>positions y. \<forall>coverage. base_shape coverage = shape \<longrightarrow>
           g coverage x = Inr (with_bumps positions coverage, y)"
      then obtain qs y where gy: "\<forall>coverage. base_shape coverage = shape \<longrightarrow>
           g coverage x = Inr (with_bumps qs coverage, y)" by blast
      have "\<forall>coverage. base_shape coverage = shape \<longrightarrow>
              ?h coverage = Inr (with_bumps (ps @ qs) coverage, y)"
        using fx gy by (simp add: base_shape_with_bumps with_bumps_append)
      then show ?thesis by blast
    qed
  qed
qed

lemma set_site_base_coverage_shape:
  assumes sh: "base_shape coverage = shape"
  shows "set_site_base_coverage coverage boundaries locus offset max_bases =
     (let s = u32_sub (fst locus) 5 div 2; a = u32_sub (snd locus) 1 in
      if length shape \<le> s then Inl OutOfRange
      else if length (shape ! s) \<le> a then Inl OutOfRange
      else
        let e = min (u64_add offset max_bases) (shape ! s ! a) in
        if e < offset then Inl AssertionFailed
        else
          Inr (with_bumps
                 (map (\<lambda>i. (s, a, i))
                    [(case boundaries locus of None \<Rightarrow> offset | Some previous_end \<Rightarrow> max offset previous_end)..<e])
                 coverage,
               boundaries(locus \<mapsto> e), e - offset))"
proof -
  let ?sites = "allele_base_coverage coverage"
  let ?s = "u32_sub (fst locus) 5 div 2" and ?a = "u32_sub (snd locus) 1"
  have l1: "length shape = length ?sites" using sh by (auto simp: base_shape_def)
  show ?thesis
  proof (cases "length shape \<le> ?s")
    case True
    then show ?thesis using l1 by (simp add: set_site_base_coverage_def Let_def)
  next
    case s: False
    then have s': "?s < length ?sites" using l1 by simp
    have l2: "length (shape ! ?s) = length (?sites ! ?s)"
      using sh s' by (auto simp: base_shape_def)
    show ?thesis
    proof (cases "length (shape ! ?s) \<le> ?a")
      case True
      then show ?thesis using s l1 l2 by (simp add: set_site_base_coverage_def Let_def)
    next
      case a: False
      then have a': "?a < length (?sites ! ?s)" using l2 by simp
      have l3: "shape ! ?s ! ?a = length (?sites ! ?s ! ?a)"
        using sh s' a' by (auto simp: base_shape_def)
      let ?e = "min (u64_add offset max_bases) (shape ! ?s ! ?a)"
      show ?thesis
      proof (cases "?e < offset")
        case True
        then show ?thesis using s a l1 l2 l3 by (simp add: set_site_base_coverage_def Let_def)
      next
        case e: False
        let ?start = "case boundaries locus of None \<Rightarrow> offset | Some previous_end \<Rightarrow> max offset previous_end"
        have "\<forall>i \<in> set [?start..<?e]. i < length (?sites ! ?s ! ?a)"
          using l3 by simp
        then have "?sites[?s := (?sites ! ?s)[?a := increment_bases [?start..<?e] (?sites ! ?s ! ?a)]] =
                fold bump_list (map (\<lambda>i. (?s, ?a, i)) [?start..<?e]) ?sites"
          by (rule increment_bases_bumps [OF s' a'])
        then show ?thesis
          using s a e l1 l2 l3
          by (simp add: set_site_base_coverage_def Let_def with_bumps_def)
      qed
    qed
  qed
qed

lemma uniform_set_site_base_coverage:
  "uniform (\<lambda>coverage. set_site_base_coverage coverage boundaries locus offset max_bases)"
  unfolding uniform_def
proof
  fix shape
  let ?f = "\<lambda>coverage. set_site_base_coverage coverage boundaries locus offset max_bases"
  let ?s = "u32_sub (fst locus) 5 div 2" and ?a = "u32_sub (snd locus) 1"
  let ?e = "min (u64_add offset max_bases) (shape ! ?s ! ?a)"
  consider (r1) "length shape \<le> ?s" | (r2) "\<not> length shape \<le> ?s" "length (shape ! ?s) \<le> ?a"
    | (r3) "\<not> length shape \<le> ?s" "\<not> length (shape ! ?s) \<le> ?a" "?e < offset"
    | (ok) "\<not> length shape \<le> ?s" "\<not> length (shape ! ?s) \<le> ?a" "\<not> ?e < offset"
    by blast
  then show "(\<exists>e. \<forall>coverage. base_shape coverage = shape \<longrightarrow> ?f coverage = Inl e) \<or>
        (\<exists>positions x. \<forall>coverage. base_shape coverage = shape \<longrightarrow>
           ?f coverage = Inr (with_bumps positions coverage, x))"
  proof cases
    case r1
    then have "\<forall>coverage. base_shape coverage = shape \<longrightarrow> ?f coverage = Inl OutOfRange"
      by (simp add: set_site_base_coverage_shape Let_def)
    then show ?thesis by blast
  next
    case r2
    then have "\<forall>coverage. base_shape coverage = shape \<longrightarrow> ?f coverage = Inl OutOfRange"
      by (simp add: set_site_base_coverage_shape Let_def)
    then show ?thesis by blast
  next
    case r3
    then have "\<forall>coverage. base_shape coverage = shape \<longrightarrow> ?f coverage = Inl AssertionFailed"
      by (simp add: set_site_base_coverage_shape Let_def)
    then show ?thesis by blast
  next
    case ok
    let ?start = "case boundaries locus of None \<Rightarrow> offset | Some previous_end \<Rightarrow> max offset previous_end"
    from ok have "\<forall>coverage. base_shape coverage = shape \<longrightarrow>
        ?f coverage = Inr (with_bumps (map (\<lambda>i. (?s, ?a, i)) [?start..<?e]) coverage,
                           boundaries(locus \<mapsto> ?e), ?e - offset)"
      by (simp add: set_site_base_coverage_shape Let_def)
    then show ?thesis by blast
  qed
qed

lemma uniform_base_coverage_walk:
  "uniform (\<lambda>coverage. base_coverage_walk coverage boundaries consumed last_site site path
              read_length pi)"
proof (induction path arbitrary: boundaries consumed last_site site)
  case Nil
  show ?case by (simp add: uniform_return)
next
  case (Cons path_element path_rest)
  show ?case
  proof (cases "consumed < read_length")
    case False
    then show ?thesis by (simp add: uniform_return)
  next
    case True
    let ?site1 = "if fst last_site \<noteq> 0 then site_marker_prg_indexes (fst path_element) pi else site"
    let ?consumed1 = "if fst last_site \<noteq> 0
               then u64_add consumed (u64_sub (u64_sub (fst ?site1) (snd last_site)) 1)
               else consumed"
    let ?g = "\<lambda>coverage1 (x :: SitesCoverageBoundaries \<times> nat).
                base_coverage_walk coverage1 (fst x) (u64_add ?consumed1 (snd x)) ?site1 ?site1
                  path_rest read_length pi"
    have eq: "(\<lambda>coverage. base_coverage_walk coverage boundaries consumed last_site site
                 (path_element # path_rest) read_length pi) =
          (\<lambda>coverage. case set_site_base_coverage coverage boundaries path_element 0
                                (u64_sub read_length ?consumed1) of
                          Inl e \<Rightarrow> Inl e
                        | Inr (coverage1, x) \<Rightarrow> ?g coverage1 x)"
      using True by (auto simp: fun_eq_iff Let_def split: sum.splits)
    show ?thesis
      unfolding eq
      by (rule uniform_bind [OF uniform_set_site_base_coverage]) (rule Cons.IH)
  qed
qed

lemma uniform_sa_index_allele_base_coverage:
  "uniform (\<lambda>coverage. sa_index_allele_base_coverage coverage boundaries sa_index read_length
              search_state pi)"
proof (cases "variant_site_path search_state")
  case Nil
  then show ?thesis by (simp add: sa_index_allele_base_coverage_def uniform_error)
next
  case (Cons path_element path_rest)
  show ?thesis
  proof (cases "sites_mask pi (fm_index pi sa_index) \<noteq> 0")
    case False
    then show ?thesis
      using Cons
      by (simp add: sa_index_allele_base_coverage_def Let_def uniform_base_coverage_walk
          del: base_coverage_walk.simps)
  next
    case within: True
    show ?thesis
    proof (cases "allele_start_offset_index (fm_index pi sa_index) pi")
      case (Inl e)
      then show ?thesis
        using Cons within by (simp add: sa_index_allele_base_coverage_def Let_def uniform_error)
    next
      case (Inr offset)
      let ?g = "\<lambda>coverage1 (x :: SitesCoverageBoundaries \<times> nat).
                  base_coverage_walk coverage1 (fst x) (u64_add 0 (snd x))
                    (site_marker_prg_indexes (fst path_element) pi) (0, 0) path_rest read_length pi"
      have eq: "(\<lambda>coverage. sa_index_allele_base_coverage coverage boundaries sa_index read_length
                   search_state pi) =
            (\<lambda>coverage. case set_site_base_coverage coverage boundaries path_element offset
                                  (u64_sub read_length 0) of
                            Inl e \<Rightarrow> Inl e
                          | Inr (coverage1, x) \<Rightarrow> ?g coverage1 x)"
        using Cons within Inr
        by (auto simp: fun_eq_iff sa_index_allele_base_coverage_def Let_def split: sum.splits)
      show ?thesis
        unfolding eq
        by (rule uniform_bind [OF uniform_set_site_base_coverage])
          (rule uniform_base_coverage_walk)
    qed
  qed
qed

lemma uniform_allele_base_rows:
  "uniform (\<lambda>coverage. allele_base_rows coverage boundaries rows read_length search_state pi)"
proof (induction rows arbitrary: boundaries)
  case Nil
  show ?case by (simp add: uniform_return)
next
  case (Cons sa_index rows)
  have eq: "(\<lambda>coverage. allele_base_rows coverage boundaries (sa_index # rows) read_length
               search_state pi) =
        (\<lambda>coverage. case sa_index_allele_base_coverage coverage boundaries sa_index read_length
                              search_state pi of
                        Inl e \<Rightarrow> Inl e
                      | Inr (coverage1, x) \<Rightarrow>
                          allele_base_rows coverage1 x rows read_length search_state pi)"
    by (auto simp: fun_eq_iff split: sum.splits)
  show ?case
    unfolding eq
    by (rule uniform_bind [OF uniform_sa_index_allele_base_coverage]) (rule Cons.IH)
qed

lemma uniform_allele_base_states:
  "uniform (\<lambda>coverage. allele_base_states coverage boundaries search_states read_length pi)"
proof (induction search_states arbitrary: boundaries)
  case Nil
  show ?case by (simp add: uniform_return)
next
  case (Cons search_state rest)
  show ?case
  proof (cases "variant_site_path search_state = []")
    case True
    then show ?thesis by (simp add: Cons.IH)
  next
    case False
    have eq: "(\<lambda>coverage. allele_base_states coverage boundaries (search_state # rest)
                 read_length pi) =
          (\<lambda>coverage. case allele_base_rows coverage boundaries
                                (sa_rows (sa_interval search_state)) read_length search_state pi of
                          Inl e \<Rightarrow> Inl e
                        | Inr (coverage1, x) \<Rightarrow>
                            allele_base_states coverage1 x rest read_length pi)"
      using False by (auto simp: fun_eq_iff split: sum.splits)
    show ?thesis
      unfolding eq
      by (rule uniform_bind [OF uniform_allele_base_rows]) (rule Cons.IH)
  qed
qed

lemma allele_base_uniform:
  "(\<exists>e. \<forall>coverage. base_shape coverage = shape \<longrightarrow>
          allele_base coverage search_states read_length pi = Inl e) \<or>
   (\<exists>positions. \<forall>coverage. base_shape coverage = shape \<longrightarrow>
          allele_base coverage search_states read_length pi = Inr (with_bumps positions coverage))"
proof -
  let ?f = "\<lambda>coverage. allele_base_states coverage Map.empty search_states read_length pi"
  have "(\<exists>e. \<forall>coverage. base_shape coverage = shape \<longrightarrow> ?f coverage = Inl e) \<or>
        (\<exists>positions x. \<forall>coverage. base_shape coverage = shape \<longrightarrow>
           ?f coverage = Inr (with_bumps positions coverage, x))"
    using uniform_allele_base_states [of Map.empty search_states read_length pi]
    unfolding uniform_def by blast
  then show ?thesis
  proof
    assume "\<exists>e. \<forall>coverage. base_shape coverage = shape \<longrightarrow> ?f coverage = Inl e"
    then obtain e where "\<forall>coverage. base_shape coverage = shape \<longrightarrow> ?f coverage = Inl e" ..
    then have "\<forall>coverage. base_shape coverage = shape \<longrightarrow>
          allele_base coverage search_states read_length pi = Inl e"
      by (simp add: allele_base_def)
    then show ?thesis by blast
  next
    assume "\<exists>positions x. \<forall>coverage. base_shape coverage = shape \<longrightarrow>
           ?f coverage = Inr (with_bumps positions coverage, x)"
    then obtain ps x where "\<forall>coverage. base_shape coverage = shape \<longrightarrow>
           ?f coverage = Inr (with_bumps ps coverage, x)" by blast
    then have "\<forall>coverage. base_shape coverage = shape \<longrightarrow>
          allele_base coverage search_states read_length pi = Inr (with_bumps ps coverage)"
      by (simp add: allele_base_def)
    then show ?thesis by blast
  qed
qed

subsection \<open>Two reads in either order\<close>

lemma fold_inc_key:
  "fold (\<lambda>x (m :: 'k \<Rightarrow> nat). m(key x := Suc (m (key x)))) xs m =
   fold (\<lambda>k m. m(k := Suc (m k))) (map key xs) m"
  by (simp add: fold_map comp_def)

lemma base_shape_record_allele_sum:
  "base_shape (record_allele_sum coverage search_states) = base_shape coverage"
  by (simp add: base_shape_def record_allele_sum_def)

lemma base_shape_record_grouped_allele_counts:
  "base_shape (record_grouped_allele_counts coverage search_states) = base_shape coverage"
  by (simp add: base_shape_def record_grouped_allele_counts_def)

lemma record_read_uniform:
  "(\<exists>e. \<forall>coverage. base_shape coverage = shape \<longrightarrow> record_read pi coverage read = Inl e) \<or>
   (\<exists>positions. \<forall>coverage. base_shape coverage = shape \<longrightarrow>
      record_read pi coverage read =
        Inr (with_bumps positions
               (record_grouped_allele_counts (record_allele_sum coverage (fst read)) (fst read))))"
proof -
  consider (err) e where "\<forall>c. base_shape c = shape \<longrightarrow>
        allele_base c (fst read) (snd read) pi = Inl e"
    | (ok) ps where "\<forall>c. base_shape c = shape \<longrightarrow>
        allele_base c (fst read) (snd read) pi = Inr (with_bumps ps c)"
    using allele_base_uniform [of shape "fst read" "snd read" pi] by blast
  then show ?thesis
  proof cases
    case err
    then have "\<forall>coverage. base_shape coverage = shape \<longrightarrow> record_read pi coverage read = Inl e"
      by (simp add: record_read_def base_shape_record_allele_sum
          base_shape_record_grouped_allele_counts)
    then show ?thesis by blast
  next
    case ok
    then have "\<forall>coverage. base_shape coverage = shape \<longrightarrow>
      record_read pi coverage read =
        Inr (with_bumps ps
               (record_grouped_allele_counts (record_allele_sum coverage (fst read)) (fst read)))"
      by (simp add: record_read_def base_shape_record_allele_sum
          base_shape_record_grouped_allele_counts)
    then show ?thesis by blast
  qed
qed

lemma recorded_fields:
  "with_bumps positions
     (record_grouped_allele_counts (record_allele_sum coverage search_states) search_states) =
   coverage
     \<lparr>allele_sum_coverage :=
        fold (\<lambda>k m. m(k := Suc (m k)))
          (map locus_index (concat (map variant_site_path search_states)))
          (allele_sum_coverage coverage),
      allele_base_coverage := fold bump_list positions (allele_base_coverage coverage),
      grouped_allele_counts :=
        fold (\<lambda>k m. m(k := Suc (m k)))
          (map (\<lambda>site_index. (site_index, site_allele_group search_states site_index))
             (remdups (map (\<lambda>locus. fst (locus_index locus))
                         (concat (map variant_site_path search_states)))))
          (grouped_allele_counts coverage)\<rparr>"
  by (simp add: with_bumps_def record_grouped_allele_counts_def record_allele_sum_def
      fold_inc_key [of locus_index]
      fold_inc_key [of "\<lambda>site_index. (site_index, site_allele_group search_states site_index)"])

lemma recorded_commute:
  "with_bumps ps
     (record_grouped_allele_counts
        (record_allele_sum
           (with_bumps qs (record_grouped_allele_counts (record_allele_sum coverage t) t)) s) s) =
   with_bumps qs
     (record_grouped_allele_counts
        (record_allele_sum
           (with_bumps ps (record_grouped_allele_counts (record_allele_sum coverage s) s)) t) t)"
  unfolding recorded_fields
  by (simp add: fold_inc_commute [of "map locus_index (concat (map variant_site_path s))"]
      fold_inc_commute [of "map (\<lambda>site_index. (site_index, site_allele_group s site_index))
             (remdups (map (\<lambda>locus. fst (locus_index locus))
                         (concat (map variant_site_path s))))"]
      fold_bump_list_commute [of ps])

lemma base_shape_recorded:
  "base_shape (with_bumps ps
     (record_grouped_allele_counts (record_allele_sum coverage s) s)) = base_shape coverage"
  by (simp add: base_shape_with_bumps base_shape_record_allele_sum
      base_shape_record_grouped_allele_counts)

lemma record_step_commute:
  "record_step pi r1 (record_step pi r2 state) = record_step pi r2 (record_step pi r1 state)"
proof (cases state)
  case None
  then show ?thesis by (simp add: record_step_def)
next
  case (Some coverage)
  let ?shape = "base_shape coverage"
  let ?eff = "\<lambda>ps read c. with_bumps ps
        (record_grouped_allele_counts (record_allele_sum c (fst read)) (fst read))"
  consider (e1) e where "\<forall>c. base_shape c = ?shape \<longrightarrow> record_read pi c r1 = Inl e"
    | (e2) e where "\<forall>c. base_shape c = ?shape \<longrightarrow> record_read pi c r2 = Inl e"
    | (ok) ps qs where "\<forall>c. base_shape c = ?shape \<longrightarrow> record_read pi c r1 = Inr (?eff ps r1 c)"
        "\<forall>c. base_shape c = ?shape \<longrightarrow> record_read pi c r2 = Inr (?eff qs r2 c)"
    using record_read_uniform [of ?shape pi r1] record_read_uniform [of ?shape pi r2] by blast
  then show ?thesis
  proof cases
    case e1
    have l: "record_step pi r1 (Some coverage) = None"
      using e1 by (simp add: record_step_def final_coverage_def)
    have "record_step pi r1 (record_step pi r2 (Some coverage)) = None"
    proof (cases "record_read pi coverage r2")
      case (Inl e')
      then show ?thesis by (simp add: record_step_def final_coverage_def)
    next
      case (Inr c2)
      have "base_shape c2 = ?shape"
        using record_read_uniform [of ?shape pi r2] Inr base_shape_recorded by fastforce
      then show ?thesis using e1 Inr by (simp add: record_step_def final_coverage_def)
    qed
    then show ?thesis using l Some by (simp add: record_step_def)
  next
    case e2
    have l: "record_step pi r2 (Some coverage) = None"
      using e2 by (simp add: record_step_def final_coverage_def)
    have "record_step pi r2 (record_step pi r1 (Some coverage)) = None"
    proof (cases "record_read pi coverage r1")
      case (Inl e')
      then show ?thesis by (simp add: record_step_def final_coverage_def)
    next
      case (Inr c1)
      have "base_shape c1 = ?shape"
        using record_read_uniform [of ?shape pi r1] Inr base_shape_recorded by fastforce
      then show ?thesis using e2 Inr by (simp add: record_step_def final_coverage_def)
    qed
    then show ?thesis using l Some by (simp add: record_step_def)
  next
    case ok
    have s1: "base_shape (?eff ps r1 coverage) = ?shape" by (rule base_shape_recorded)
    have s2: "base_shape (?eff qs r2 coverage) = ?shape" by (rule base_shape_recorded)
    have "record_step pi r1 (record_step pi r2 (Some coverage)) =
            Some (?eff ps r1 (?eff qs r2 coverage))"
      using ok s2 by (simp add: record_step_def final_coverage_def)
    moreover have "record_step pi r2 (record_step pi r1 (Some coverage)) =
            Some (?eff qs r2 (?eff ps r1 coverage))"
      using ok s1 by (simp add: record_step_def final_coverage_def)
    moreover have "?eff ps r1 (?eff qs r2 coverage) = ?eff qs r2 (?eff ps r1 coverage)"
      by (rule recorded_commute)
    ultimately show ?thesis using Some by simp
  qed
qed

lemma fold_record_step_None: "fold (record_step pi) reads None = None"
  by (induction reads) (simp_all add: record_step_def)

lemma final_coverage_record_reads:
  "final_coverage (record_reads pi coverage reads) = fold (record_step pi) reads (Some coverage)"
proof (induction reads arbitrary: coverage)
  case Nil
  show ?case by (simp add: final_coverage_def)
next
  case (Cons read reads)
  show ?case
  proof (cases "record_read pi coverage read")
    case (Inl e)
    then have "record_step pi read (Some coverage) = None"
      by (simp add: record_step_def final_coverage_def)
    then show ?thesis using Inl
      by (simp add: final_coverage_def fold_record_step_None)
  next
    case (Inr coverage1)
    then have "record_step pi read (Some coverage) = Some coverage1"
      by (simp add: record_step_def final_coverage_def)
    then show ?thesis using Inr Cons [of coverage1] by simp
  qed
qed

text \<open>
  Claim C7. For a fixed PRG and any two lists of reads that are permutations of each
  other, recording the reads in either order gives the same result: either both runs
  abort, or both finish with the same coverage structure, that is the same allele sum
  counts, the same per-base coverage (with its 16-bit saturation) and the same grouped
  allele counts.
\<close>

theorem coverage_independent_of_read_order:
  assumes "mset reads = mset reads'"
  shows "final_coverage (record_reads pi coverage reads) =
         final_coverage (record_reads pi coverage reads')"
proof -
  have "fold (record_step pi) reads = fold (record_step pi) reads'"
  proof (rule fold_multiset_equiv [OF _ assms])
    fix x y
    show "record_step pi x \<circ> record_step pi y = record_step pi y \<circ> record_step pi x"
    proof (rule ext)
      fix state
      show "(record_step pi x \<circ> record_step pi y) state =
            (record_step pi y \<circ> record_step pi x) state"
        unfolding comp_apply by (rule record_step_commute)
    qed
  qed
  then show ?thesis by (simp add: final_coverage_record_reads)
qed

text \<open>
  The two reads \<open>aa\<close> and \<open>c\<close> of the example PRG, recorded in both orders.
\<close>

theorem coverage_independent_of_read_order_witness:
  "final_coverage (record_reads example_prg_info example_coverage
                     [example_read_aa, example_read_c]) =
   final_coverage (record_reads example_prg_info example_coverage
                     [example_read_c, example_read_aa]) \<and>
   map_sum id allele_base_coverage
     (record_reads example_prg_info example_coverage [example_read_aa, example_read_c]) =
     Inr [[[0, 0, 0, 1, 2, 1], [1]]]"
proof -
  have p: "mset [example_read_aa, example_read_c] = mset [example_read_c, example_read_aa]"
    by (simp add: add_mset_commute)
  have v: "map_sum id allele_base_coverage
     (record_reads example_prg_info example_coverage [example_read_aa, example_read_c]) =
     Inr [[[0, 0, 0, 1, 2, 1], [1]]]"
    by code_simp
  show ?thesis
    using coverage_independent_of_read_order [OF p, of example_prg_info example_coverage] v
    by (rule conjI)
qed

subsection \<open>One read hitting the same allele several times\<close>

text \<open>
  Claim C8. Within the recording of one read, no base of an allele should be incremented
  twice. On the example PRG \<open>g5aacaaa6c5t\<close> the read \<open>aa\<close> ends in one search state with
  the rows 1 to 3 and the path \<open>[(5, 1)]\<close>. The rows start at the offsets 3, 0 and 4 of
  the allele. The first hit covers the offsets 3 and 4 and records the end 5; the second
  hit covers nothing, but overwrites the recorded end with 2; the third hit then covers
  the offsets 4 and 5, so the base at offset 4 is counted twice for this one read.
\<close>

theorem base_counted_twice_in_one_read:
  "handle_allele_encapsulated_states [example_state (1, 3)] example_prg_info =
     Inr (fst example_read_aa) \<and>
   map_sum id allele_base_coverage
     (allele_base example_coverage (fst example_read_aa) (snd example_read_aa) example_prg_info) =
     Inr [[[0, 0, 0, 1, 2, 1], [0]]]"
  by code_simp
end
